theory Spec2Isabelle
  imports Complex_Main "HOL-Library.Word" "HOL-Library.Log_Nat"
    "HOL-Library.Signed_Division"
begin

section \<open>Double-precision arithmetic\<close>

text \<open>
  Both scripts compute with Python floats and NumPy \<open>float64\<close> arrays. A double is
  modelled by the rational number it denotes, and every arithmetic operation rounds its
  exact result to the nearest double, ties to even (IEEE 754 binary64, 53 significant
  bits). Overflow and subnormal numbers are not modelled: every value the two scripts
  compute lies between \<open>2\<^sup>-\<^sup>8\<close> and \<open>2\<^sup>5\<^sup>3\<close>, or is 0.
\<close>

definition rne :: "rat \<Rightarrow> int" where
  \<comment> \<open>round to the nearest integer, a tie to the even neighbour\<close>
  "rne x = (let f = \<lfloor>x\<rfloor>; r = x - of_int f
            in if r < 1 / 2 then f else if 1 / 2 < r then f + 1
               else if even f then f else f + 1)"

definition expo :: "rat \<Rightarrow> int" where
  \<comment> \<open>the binary exponent of a positive rational: \<open>2 powi expo x \<le> x < 2 powi (expo x + 1)\<close>\<close>
  "expo x = (case quotient_of x of (p, q) \<Rightarrow>
               let e = bitlen p - bitlen q
               in if power_int 2 e \<le> x then e else e - 1)"

definition fl64 :: "rat \<Rightarrow> rat" where
  \<comment> \<open>the double nearest to \<open>x\<close>: 53 bits kept from the leading one\<close>
  "fl64 x = (if x = 0 then 0
             else let u = power_int 2 (expo \<bar>x\<bar> - 52)
                  in sgn x * of_int (rne (\<bar>x\<bar> / u)) * u)"

definition fmul :: "rat \<Rightarrow> rat \<Rightarrow> rat" where
  "fmul a b = fl64 (a * b)"

definition fdiv :: "rat \<Rightarrow> rat \<Rightarrow> rat" where
  "fdiv a b = fl64 (a / b)"

definition fsub :: "rat \<Rightarrow> rat \<Rightarrow> rat" where
  "fsub a b = fl64 (a - b)"

definition drop_fraction :: "rat \<Rightarrow> int" where
  \<comment> \<open>conversion of a float to an integer type: the fraction is dropped\<close>
  "drop_fraction x = (if 0 \<le> x then \<lfloor>x\<rfloor> else \<lceil>x\<rceil>)"

definition py_float :: "int \<Rightarrow> rat" where
  \<comment> \<open>the float an \<open>int\<close> operand becomes in mixed arithmetic\<close>
  "py_float n = fl64 (of_int n)"

definition py_int :: "rat \<Rightarrow> int" where
  \<comment> \<open>Python's \<open>int(x)\<close> on a float\<close>
  "py_int x = drop_fraction x"


section \<open>Images\<close>

text \<open>
  An image of the imaging library is its mode and its raster: the rows, top to bottom,
  of its pixels, left to right, each pixel three 8-bit samples. For an image whose mode
  is not \<open>RGB\<close> the raster is whatever the library holds; the scripts only read
  rasters of \<open>RGB\<close> images, and the library's \<open>convert\<close> is a parameter of every
  function that calls it.
\<close>

type_synonym u8 = "8 word"

type_synonym 'a rgb = "'a \<times> 'a \<times> 'a"

type_synonym 'a ndarray = "'a rgb list list"

record image =
  mode :: string
  raster :: "u8 ndarray"

type_synonym converter = "image \<Rightarrow> string \<Rightarrow> image"

definition im_size :: "image \<Rightarrow> nat \<times> nat" where
  \<comment> \<open>\<open>img.size\<close>: (width, height)\<close>
  "im_size img =
     (if raster img = [] then 0 else length (hd (raster img)), length (raster img))"

datatype error = ValueError | FileNotFoundError | UnidentifiedImageError

datatype stored = Missing | Broken | Picture image

definition image_open :: "stored \<Rightarrow> error + image" where
  \<comment> \<open>\<open>Image.open(path)\<close> on the file at that path\<close>
  "image_open f = (case f of Missing \<Rightarrow> Inl FileNotFoundError
                    | Broken \<Rightarrow> Inl UnidentifiedImageError
                    | Picture img \<Rightarrow> Inr img)"

definition and_then :: "error + 'a \<Rightarrow> ('a \<Rightarrow> error + 'b) \<Rightarrow> error + 'b" where
  \<comment> \<open>an exception raised in the first computation skips the second\<close>
  "and_then m f = (case m of Inl e \<Rightarrow> Inl e | Inr x \<Rightarrow> f x)"


section \<open>NumPy arrays\<close>

fun chan :: "nat \<Rightarrow> 'a rgb \<Rightarrow> 'a" where
  "chan c (r, g, b) = (if c = 0 then r else if c = 1 then g else b)"

fun set_chan :: "nat \<Rightarrow> 'a \<Rightarrow> 'a rgb \<Rightarrow> 'a rgb" where
  "set_chan c v (r, g, b) =
     (if c = 0 then (v, g, b) else if c = 1 then (r, v, b) else (r, g, v))"

fun map_rgb :: "('a \<Rightarrow> 'b) \<Rightarrow> 'a rgb \<Rightarrow> 'b rgb" where
  "map_rgb f (r, g, b) = (f r, f g, f b)"

definition np_array :: "image \<Rightarrow> u8 ndarray" where
  \<comment> \<open>\<open>np.array(image)\<close>: shape (height, width, 3)\<close>
  "np_array img = raster img"

definition astype_float64 :: "u8 ndarray \<Rightarrow> rat ndarray" where
  "astype_float64 a = map (map (map_rgb (\<lambda>v. of_nat (unat v)))) a"

definition plane :: "nat \<Rightarrow> 'a ndarray \<Rightarrow> 'a list list" where
  \<comment> \<open>\<open>a[:, :, c]\<close>\<close>
  "plane c a = map (map (chan c)) a"

definition np_max :: "rat list list \<Rightarrow> error + rat" where
  \<comment> \<open>\<open>np.max\<close> raises \<open>ValueError\<close> on an array with no element\<close>
  "np_max p = (case concat p of [] \<Rightarrow> Inl ValueError | x # xs \<Rightarrow> Inr (fold max xs x))"

definition np_min :: "rat list list \<Rightarrow> error + rat" where
  "np_min p = (case concat p of [] \<Rightarrow> Inl ValueError | x # xs \<Rightarrow> Inr (fold min xs x))"

definition imul_plane :: "nat \<Rightarrow> rat \<Rightarrow> rat ndarray \<Rightarrow> rat ndarray" where
  \<comment> \<open>\<open>a[:, :, c] *= s\<close>\<close>
  "imul_plane c s a = map (map (\<lambda>p. set_chan c (fmul (chan c p) s) p)) a"

definition assign_plane :: "nat \<Rightarrow> rat list list \<Rightarrow> rat ndarray \<Rightarrow> rat ndarray" where
  \<comment> \<open>\<open>a[:, :, c] = vals\<close>, for \<open>vals\<close> of the shape of the plane\<close>
  "assign_plane c vals a = map2 (map2 (set_chan c)) vals a"

definition np_clip :: "rat ndarray \<Rightarrow> rat \<Rightarrow> rat \<Rightarrow> rat ndarray" where
  "np_clip a lo hi = map (map (map_rgb (\<lambda>x. min hi (max lo x)))) a"

definition np_uint8 :: "rat ndarray \<Rightarrow> u8 ndarray" where
  \<comment> \<open>the cast to \<open>uint8\<close> drops the fraction\<close>
  "np_uint8 a = map (map (map_rgb (\<lambda>x. word_of_int (drop_fraction x)))) a"

definition fromarray :: "u8 ndarray \<Rightarrow> image" where
  \<comment> \<open>\<open>Image.fromarray\<close> on a \<open>uint8\<close> array of shape (h, w, 3)\<close>
  "fromarray a = \<lparr>mode = ''RGB'', raster = a\<rparr>"


section \<open>create\_thumbnails.py\<close>

definition get_image_size :: "stored \<Rightarrow> (nat \<times> nat) option" where
  "get_image_size f = (case image_open f of Inl e \<Rightarrow> None | Inr img \<Rightarrow> Some (im_size img))"

definition needs_rotation :: "image \<Rightarrow> bool" where
  "needs_rotation img = (case im_size img of (width, height) \<Rightarrow>
     width = 4000 \<and> width > height)"

definition ensure_rgb :: "converter \<Rightarrow> image \<Rightarrow> image" where
  \<comment> \<open>\<open>if image.mode != 'RGB': image = image.convert('RGB')\<close>\<close>
  "ensure_rgb convert img = (if mode img \<noteq> ''RGB'' then convert img ''RGB'' else img)"

definition apply_white_patch_white_balance :: "converter \<Rightarrow> image \<Rightarrow> error + image" where
  "apply_white_patch_white_balance convert img0 =
     (let img = ensure_rgb convert img0;
          img_array = astype_float64 (np_array img)
      in and_then (np_max (plane 0 img_array)) (\<lambda>max_r.
         and_then (np_max (plane 1 img_array)) (\<lambda>max_g.
         and_then (np_max (plane 2 img_array)) (\<lambda>max_b.
           let scale_r = (if max_r > 0 then fdiv 255 max_r else 1);
               scale_g = (if max_g > 0 then fdiv 255 max_g else 1);
               scale_b = (if max_b > 0 then fdiv 255 max_b else 1);
               balanced = img_array;
               balanced = imul_plane 0 scale_r balanced;
               balanced = imul_plane 1 scale_g balanced;
               balanced = imul_plane 2 scale_b balanced;
               balanced = np_clip balanced 0 255
           in Inr (fromarray (np_uint8 balanced))))))"

definition levels_channel :: "rat ndarray \<Rightarrow> rat ndarray \<Rightarrow> nat \<Rightarrow> error + rat ndarray" where
  \<comment> \<open>the body of the loop over the channels\<close>
  "levels_channel img_array adjusted channel =
     (let channel_data = plane channel img_array
      in and_then (np_min channel_data) (\<lambda>min_val.
         and_then (np_max channel_data) (\<lambda>max_val.
           if max_val > min_val
           then Inr (assign_plane channel
                  (map (map (\<lambda>v. fdiv (fmul (fsub v min_val) 255) (fsub max_val min_val)))
                     channel_data)
                  adjusted)
           else Inr adjusted)))"

fun levels_loop :: "rat ndarray \<Rightarrow> rat ndarray \<Rightarrow> nat list \<Rightarrow> error + rat ndarray" where
  "levels_loop img_array adjusted [] = Inr adjusted"
| "levels_loop img_array adjusted (channel # rest) =
     and_then (levels_channel img_array adjusted channel)
       (\<lambda>adjusted. levels_loop img_array adjusted rest)"

definition apply_auto_levels :: "converter \<Rightarrow> image \<Rightarrow> error + image" where
  "apply_auto_levels convert img0 =
     (let img = ensure_rgb convert img0;
          img_array = astype_float64 (np_array img);
          adjusted = img_array
      in and_then (levels_loop img_array adjusted [0, 1, 2]) (\<lambda>adjusted.
           let adjusted = np_clip adjusted 0 255
           in Inr (fromarray (np_uint8 adjusted))))"

definition new_size :: "image \<Rightarrow> rat \<Rightarrow> int \<times> int" where
  \<comment> \<open>\<open>create_thumbnail\<close>: the size the processed image is resized to\<close>
  "new_size img scale_factor = (case im_size img of (original_width, original_height) \<Rightarrow>
     (py_int (fmul (py_float (int original_width)) scale_factor),
      py_int (fmul (py_float (int original_height)) scale_factor)))"

definition default_scale_factor :: rat where
  \<comment> \<open>the literal \<open>0.2\<close>\<close>
  "default_scale_factor = fl64 (2 / 10)"

definition expected_thumb_size :: "nat \<times> nat \<Rightarrow> int \<times> int" where
  \<comment> \<open>\<open>check_and_fix_thumbnails\<close>: the expected size, from the size of the original\<close>
  "expected_thumb_size original_size = (case original_size of (original_width, original_height) \<Rightarrow>
     (py_int (fmul (py_float (int original_width)) (fl64 (2 / 10))),
      py_int (fmul (py_float (int original_height)) (fl64 (2 / 10)))))"

definition thumb_size_ok :: "nat \<times> nat \<Rightarrow> int \<times> int \<Rightarrow> bool" where
  \<comment> \<open>the tolerance test on an existing thumbnail\<close>
  "thumb_size_ok thumb_size expected =
     (case thumb_size of (thumb_width, thumb_height) \<Rightarrow>
      case expected of (expected_thumb_width, expected_thumb_height) \<Rightarrow>
        \<bar>int thumb_width - expected_thumb_width\<bar> \<le> 1 \<and>
        \<bar>int thumb_height - expected_thumb_height\<bar> \<le> 1)"

definition needs_creation :: "image \<Rightarrow> stored \<Rightarrow> bool" where
  \<comment> \<open>\<open>check_and_fix_thumbnails\<close>, for one readable original and the file at its
      thumbnail path: whether the thumbnail is created again\<close>
  "needs_creation original thumb =
     (let needs_rotate = needs_rotation original;
          is_new_image = (thumb = Missing);
          expected = expected_thumb_size (im_size original)
      in if needs_rotate then True
         else if is_new_image then True
         else (case get_image_size thumb of
                 None \<Rightarrow> True
               | Some thumb_size \<Rightarrow> \<not> thumb_size_ok thumb_size expected))"


section \<open>center\_image\_batch.py\<close>

record photos_dir =
  listdir :: "string list"
  file_at :: "string \<Rightarrow> stored"

definition endswith :: "string \<Rightarrow> string \<Rightarrow> bool" where
  "endswith s suffix =
     (length suffix \<le> length s \<and> drop (length s - length suffix) s = suffix)"

text \<open>
  A Python dictionary keeps its keys in the order of their first insertion; it is an
  association list here. \<open>dict_get\<close> is \<open>d.get(k, default)\<close> and \<open>dict_set\<close> is
  \<open>d[k] = v\<close>: a key already there keeps its place, a new one goes to the end.
\<close>

fun dict_get :: "('k \<times> 'v) list \<Rightarrow> 'k \<Rightarrow> 'v \<Rightarrow> 'v" where
  "dict_get [] k dflt = dflt"
| "dict_get ((k', v) # rest) k dflt = (if k' = k then v else dict_get rest k dflt)"

fun dict_set :: "('k \<times> 'v) list \<Rightarrow> 'k \<Rightarrow> 'v \<Rightarrow> ('k \<times> 'v) list" where
  "dict_set [] k v = [(k, v)]"
| "dict_set ((k', v') # rest) k v =
     (if k' = k then (k, v) # rest else (k', v') # dict_set rest k v)"

fun scan_sizes ::
  "photos_dir \<Rightarrow> ((nat \<times> nat) \<times> nat) list \<Rightarrow> string list \<Rightarrow> ((nat \<times> nat) \<times> nat) list" where
  \<comment> \<open>the loop over \<open>os.listdir(PHOTOS_DIR)\<close>; an exception while opening skips the file\<close>
  "scan_sizes d sizes [] = sizes"
| "scan_sizes d sizes (filename # rest) =
     (if (endswith filename ''.jpg'' \<or> endswith filename ''.jpeg'' \<or> endswith filename ''.png'')
         \<and> \<not> endswith filename ''_centered.jpg''
      then (case image_open (file_at d filename) of
              Inl e \<Rightarrow> scan_sizes d sizes rest
            | Inr img \<Rightarrow>
                let size = im_size img
                in scan_sizes d (dict_set sizes size (dict_get sizes size 0 + 1)) rest)
      else scan_sizes d sizes rest)"

fun py_max_key :: "('a \<Rightarrow> nat) \<Rightarrow> 'a \<Rightarrow> 'a list \<Rightarrow> 'a" where
  \<comment> \<open>\<open>max(items, key=key)\<close> after its first item: a later item replaces the best one
      only when its key is strictly greater\<close>
  "py_max_key key best [] = best"
| "py_max_key key best (x # xs) = py_max_key key (if key best < key x then x else best) xs"

definition get_portrait_canvas_size :: "photos_dir \<Rightarrow> (nat \<times> nat) option" where
  "get_portrait_canvas_size d =
     (let sizes = scan_sizes d [] (listdir d)
      in case sizes of
           [] \<Rightarrow> None
         | item # items \<Rightarrow>
             let most_common = fst (py_max_key snd item items);
                 most_common = (if fst most_common > snd most_common
                                then (snd most_common, fst most_common) else most_common)
             in Some most_common)"

definition image_new :: "string \<Rightarrow> nat \<times> nat \<Rightarrow> u8 rgb \<Rightarrow> image" where
  \<comment> \<open>\<open>Image.new(mode, size, color)\<close>\<close>
  "image_new m sz color = \<lparr>mode = m, raster = replicate (snd sz) (replicate (fst sz) color)\<rparr>"

definition paste :: "converter \<Rightarrow> image \<Rightarrow> image \<Rightarrow> int \<times> int \<Rightarrow> image" where
  \<comment> \<open>\<open>canvas.paste(im, (left, upper))\<close> of the imaging library: the source is converted
      to the mode of the canvas when the modes differ, and the part of it that falls on
      the canvas replaces the pixels there\<close>
  "paste convert canvas im0 box =
     (let im = (if mode im0 \<noteq> mode canvas then convert im0 (mode canvas) else im0)
      in case box of (left, upper) \<Rightarrow>
           canvas\<lparr>raster :=
             map (\<lambda>(y, row). map (\<lambda>(x, px).
                    let sx = int x - left; sy = int y - upper
                    in if 0 \<le> sy \<and> nat sy < length (raster im) \<and>
                          0 \<le> sx \<and> nat sx < length (raster im ! nat sy)
                       then raster im ! nat sy ! nat sx else px)
                  (enumerate 0 row))
               (enumerate 0 (raster canvas))\<rparr>)"

definition center_offset :: "nat \<times> nat \<Rightarrow> nat \<times> nat \<Rightarrow> int \<times> int" where
  \<comment> \<open>\<open>x_offset\<close> and \<open>y_offset\<close>; Python's \<open>//\<close> rounds towards minus infinity, as
      \<open>div\<close> on \<open>int\<close> does\<close>
  "center_offset canvas_size target_dim =
     (case canvas_size of (canvas_width, canvas_height) \<Rightarrow>
      case target_dim of (target_width, target_height) \<Rightarrow>
        ((int canvas_width - int target_width) div 2,
         (int canvas_height - int target_height) div 2))"

definition center_image_on_canvas ::
  "converter \<Rightarrow> photos_dir \<Rightarrow> string \<Rightarrow> nat \<times> nat \<Rightarrow> error + image option" where
  \<comment> \<open>the result is the canvas saved at the output path, \<open>None\<close> when the target is
      missing; the thumbnail derived from it by the library's resampling is left out\<close>
  "center_image_on_canvas convert d target_filename canvas_size =
     (if file_at d target_filename = Missing then Inr None
      else and_then (image_open (file_at d target_filename)) (\<lambda>target_img.
             let canvas = image_new ''RGB'' canvas_size (255, 255, 255);
                 offset = center_offset canvas_size (im_size target_img);
                 canvas = paste convert canvas target_img offset
             in Inr (Some canvas)))"

datatype outcome = Finished image | SysExit nat | Uncaught error

definition main :: "converter \<Rightarrow> string list \<Rightarrow> photos_dir \<Rightarrow> outcome" where
  "main convert argv d =
     (if length argv < 2 then SysExit 1
      else let target_filename = argv ! 1
           in case get_portrait_canvas_size d of
                None \<Rightarrow> SysExit 1
              | Some canvas_size \<Rightarrow>
                  (case center_image_on_canvas convert d target_filename canvas_size of
                     Inl e \<Rightarrow> Uncaught e
                   | Inr None \<Rightarrow> SysExit 1
                   | Inr (Some canvas) \<Rightarrow> Finished canvas))"


section \<open>The specification's vocabulary\<close>

text \<open>
  The definitions of this section follow the words of the specification, not the code;
  the theorems below compare the code with them.
\<close>

definition reference_sizes :: "photos_dir \<Rightarrow> (nat \<times> nat) list" where
  \<comment> \<open>the input sequence of Dimensions: the sizes of the reference images that decode,
      in the order of the listing\<close>
  "reference_sizes d =
     concat (map (\<lambda>filename.
        if (endswith filename ''.jpg'' \<or> endswith filename ''.jpeg'' \<or> endswith filename ''.png'')
           \<and> \<not> endswith filename ''_centered.jpg''
        then (case get_image_size (file_at d filename) of None \<Rightarrow> [] | Some s \<Rightarrow> [s])
        else []) (listdir d))"

definition first_mode :: "'a list \<Rightarrow> 'a \<Rightarrow> bool" where
  \<comment> \<open>\<open>m\<close> has the highest count in \<open>ds\<close>, and every element met before \<open>m\<close> has a
      strictly lower one\<close>
  "first_mode ds m \<longleftrightarrow>
     m \<in> set ds \<and> (\<forall>x \<in> set ds. count_list ds x \<le> count_list ds m) \<and>
     (\<forall>x \<in> set (takeWhile (\<lambda>x. x \<noteq> m) ds). count_list ds x < count_list ds m)"

definition portrait :: "nat \<times> nat \<Rightarrow> nat \<times> nat" where
  "portrait d = (case d of (w, h) \<Rightarrow> if w > h then (h, w) else (w, h))"

definition channel_values :: "nat \<Rightarrow> image \<Rightarrow> nat list" where
  \<comment> \<open>the samples of one channel, over all pixels\<close>
  "channel_values c img = map (\<lambda>p. unat (chan c p)) (concat (raster img))"

definition stretch :: "nat \<Rightarrow> nat \<Rightarrow> nat \<Rightarrow> nat" where
  \<comment> \<open>the remapping of a sample of a channel with minimum \<open>minC\<close> and maximum
      \<open>maxC\<close>, in exact arithmetic, clipped and with the fraction dropped; a uniform
      channel is left as it is\<close>
  "stretch minC maxC v =
     (if maxC > minC
      then nat \<lfloor>min 255 (max 0 ((rat_of_nat v - rat_of_nat minC) * 255
                                   / (rat_of_nat maxC - rat_of_nat minC)))\<rfloor>
      else v)"

definition auto_levels_pixel :: "image \<Rightarrow> u8 rgb \<Rightarrow> u8 rgb" where
  \<comment> \<open>each channel stretched by its own minimum and maximum over the image\<close>
  "auto_levels_pixel img p =
     (word_of_nat (stretch (Min (set (channel_values 0 img))) (Max (set (channel_values 0 img)))
                     (unat (chan 0 p))),
      word_of_nat (stretch (Min (set (channel_values 1 img))) (Max (set (channel_values 1 img)))
                     (unat (chan 1 p))),
      word_of_nat (stretch (Min (set (channel_values 2 img))) (Max (set (channel_values 2 img)))
                     (unat (chan 2 p))))"

definition levels_sample :: "rat \<Rightarrow> rat \<Rightarrow> rat \<Rightarrow> rat" where
  \<comment> \<open>what the loop of \<open>apply_auto_levels\<close> leaves in a sample \<open>v\<close> of a channel with
      minimum \<open>min_val\<close> and maximum \<open>max_val\<close>, in double precision\<close>
  "levels_sample min_val max_val v =
     (if max_val > min_val then fdiv (fmul (fsub v min_val) 255) (fsub max_val min_val) else v)"

definition white_patch_sample :: "nat \<Rightarrow> u8 \<Rightarrow> u8" where
  \<comment> \<open>what \<open>apply_white_patch_white_balance\<close> makes of a sample \<open>v\<close> of a channel with
      maximum \<open>max_c\<close>, in double precision\<close>
  "white_patch_sample max_c v =
     word_of_int (drop_fraction (min 255 (max 0
       (fmul (rat_of_nat (unat v))
          (if rat_of_nat max_c > 0 then fdiv 255 (rat_of_nat max_c) else 1)))))"

fun count_sizes :: "('k \<times> nat) list \<Rightarrow> 'k list \<Rightarrow> ('k \<times> nat) list" where
  \<comment> \<open>the dictionary of \<open>get_portrait_canvas_size\<close> after a sequence of decoded sizes\<close>
  "count_sizes sizes [] = sizes"
| "count_sizes sizes (sz # rest) =
     count_sizes (dict_set sizes sz (dict_get sizes sz 0 + 1)) rest"

definition reference_photos :: photos_dir where
  \<comment> \<open>a folder of three reference images of sizes (800, 600), (800, 600) and (600, 800),
      an already centered image and a file that does not decode\<close>
  "reference_photos =
     \<lparr>listdir = [''a.jpg'', ''b.png'', ''c.jpeg'', ''d_centered.jpg'', ''e.jpg''],
      file_at = (\<lambda>filename.
        if filename = ''a.jpg'' then Picture (image_new ''RGB'' (800, 600) (0, 0, 0))
        else if filename = ''b.png'' then Picture (image_new ''RGB'' (800, 600) (0, 0, 0))
        else if filename = ''c.jpeg'' then Picture (image_new ''RGB'' (600, 800) (0, 0, 0))
        else if filename = ''d_centered.jpg'' then Picture (image_new ''RGB'' (500, 700) (0, 0, 0))
        else if filename = ''e.jpg'' then Broken
        else Missing)\<rparr>"

definition unusable_photos :: photos_dir where
  \<comment> \<open>a folder with no reference image that decodes\<close>
  "unusable_photos =
     \<lparr>listdir = [''d_centered.jpg'', ''e.jpg'', ''notes.txt''],
      file_at = (\<lambda>filename.
        if filename = ''d_centered.jpg'' then Picture (image_new ''RGB'' (500, 700) (0, 0, 0))
        else if filename = ''e.jpg'' then Broken
        else if filename = ''notes.txt'' then Broken
        else Missing)\<rparr>"


section \<open>Rounding to a double\<close>

text \<open>
  A double of exponent \<open>e\<close> is a multiple of \<open>2 powi (e - 52)\<close>. Rounding never crosses
  such a multiple: this is all the proofs below need of \<open>fl64\<close>.
\<close>

lemma rne_of_int: "rne (of_int n) = n"
  by (simp add: rne_def)

lemma rne_cases: "rne x = \<lfloor>x\<rfloor> \<or> rne x = \<lfloor>x\<rfloor> + 1"
  by (simp add: rne_def Let_def)

lemma rne_ge: "of_int n \<le> x \<Longrightarrow> n \<le> rne x"
proof -
  assume "of_int n \<le> x"
  then have "n \<le> \<lfloor>x\<rfloor>" by (simp add: le_floor_iff)
  with rne_cases [of x] show ?thesis by auto
qed

lemma rne_le: "x \<le> of_int n \<Longrightarrow> rne x \<le> n"
proof (cases "x = of_int n")
  case True
  then show ?thesis by (simp add: rne_of_int)
next
  case False
  assume "x \<le> of_int n"
  with False have "x < of_int n" by simp
  then have "\<lfloor>x\<rfloor> < n" by (simp add: floor_less_iff)
  with rne_cases [of x] show ?thesis by auto
qed

lemma expo_le:
  assumes "0 < x"
  shows "power_int 2 (expo x) \<le> x"
proof -
  obtain p q where pq: "quotient_of x = (p, q)" by (cases "quotient_of x")
  then have q: "0 < q" and x: "x = of_int p / of_int q"
    by (simp_all add: quotient_of_denom_pos quotient_of_div)
  from assms q x have p: "0 < p" by (simp add: zero_less_divide_iff)
  show ?thesis
  proof (cases "power_int 2 (bitlen p - bitlen q) \<le> x")
    case True
    then show ?thesis by (simp add: expo_def pq)
  next
    case False
    have bp: "(2::rat) ^ nat (bitlen p - 1) \<le> of_int p"
    proof -
      have "(2::int) ^ nat (bitlen p - 1) \<le> p" using bitlen_bounds [OF p] by simp
      then have "of_int ((2::int) ^ nat (bitlen p - 1)) \<le> (of_int p :: rat)"
        by (simp only: of_int_le_iff)
      then show ?thesis by simp
    qed
    have bq: "(of_int q :: rat) \<le> 2 ^ nat (bitlen q)"
    proof -
      have "q \<le> (2::int) ^ nat (bitlen q)" using bitlen_bounds [OF q] by simp
      then have "(of_int q :: rat) \<le> of_int ((2::int) ^ nat (bitlen q))"
        by (simp only: of_int_le_iff)
      then show ?thesis by simp
    qed
    have p1: "1 \<le> bitlen p" using p by (simp add: bitlen_alt_def)
    have q0: "0 \<le> bitlen q" by (rule bitlen_nonneg)
    have "power_int (2::rat) (bitlen p - bitlen q - 1)
          = power_int 2 (bitlen p - 1) / power_int 2 (bitlen q)"
      using power_int_diff [of "2::rat" "bitlen p - 1" "bitlen q"]
      by (simp add: algebra_simps)
    also have "\<dots> = 2 ^ nat (bitlen p - 1) / 2 ^ nat (bitlen q)"
      using p1 q0 by (simp add: power_int_nonneg_exp)
    also have "\<dots> \<le> of_int p / of_int q"
      using bp bq p q by (intro frac_le) simp_all
    finally have "power_int (2::rat) (bitlen p - bitlen q - 1) \<le> x"
      by (simp only: x)
    moreover have "expo x = bitlen p - bitlen q - 1"
      using False by (simp add: expo_def pq)
    ultimately show ?thesis by simp
  qed
qed

lemma fl64_pos:
  "0 < x \<Longrightarrow> fl64 x = of_int (rne (x / power_int 2 (expo x - 52))) * power_int 2 (expo x - 52)"
  by (simp add: fl64_def Let_def)

lemma fl64_ge_grid:
  assumes "0 < x" and "y = of_int n * power_int 2 (expo x - 52)" and "y \<le> x"
  shows "y \<le> fl64 x"
proof -
  let ?u = "power_int (2::rat) (expo x - 52)"
  have u: "0 < ?u" by simp
  from assms u have "of_int n \<le> x / ?u" by (simp add: pos_le_divide_eq)
  then have "n \<le> rne (x / ?u)" by (rule rne_ge)
  then have "(of_int n :: rat) \<le> of_int (rne (x / ?u))" by simp
  then have "of_int n * ?u \<le> of_int (rne (x / ?u)) * ?u"
    using u by (simp only: mult_le_cancel_right_pos)
  with assms show ?thesis by (simp add: fl64_pos)
qed

lemma fl64_le_grid:
  assumes "0 < x" and "y = of_int n * power_int 2 (expo x - 52)" and "x \<le> y"
  shows "fl64 x \<le> y"
proof -
  let ?u = "power_int (2::rat) (expo x - 52)"
  have u: "0 < ?u" by simp
  from assms u have "x / ?u \<le> of_int n" by (simp add: pos_divide_le_eq)
  then have "rne (x / ?u) \<le> n" by (rule rne_le)
  then have "(of_int (rne (x / ?u)) :: rat) \<le> of_int n" by simp
  then have "of_int (rne (x / ?u)) * ?u \<le> of_int n * ?u"
    using u by (simp only: mult_le_cancel_right_pos)
  with assms show ?thesis by (simp add: fl64_pos)
qed

lemma on_grid:
  assumes "0 < x" and "x < 2 ^ (53 - j)" and "j \<le> 53"
  shows "\<exists>n. of_int k / 2 ^ j = of_int n * power_int (2::rat) (expo x - 52)"
proof -
  have "power_int (2::rat) (expo x) < power_int 2 (int (53 - j))"
    using expo_le [OF assms(1)] assms(2) by simp
  then have "expo x < int (53 - j)"
    by (rule power_int_le_imp_less_exp [rotated]) simp_all
  then have d: "0 \<le> 52 - int j - expo x" using assms(3) by simp
  define d where "d = nat (52 - int j - expo x)"
  have "power_int (2::rat) (expo x - 52) = power_int 2 (- int j - int d)"
    using d by (simp add: d_def)
  also have "\<dots> = 1 / (2 ^ j * 2 ^ d)"
    by (simp add: power_int_diff power_int_minus field_simps)
  finally have "power_int (2::rat) (expo x - 52) = 1 / (2 ^ j * 2 ^ d)" .
  then have "of_int k / 2 ^ j = of_int (k * 2 ^ d) * power_int (2::rat) (expo x - 52)"
    by simp
  then show ?thesis ..
qed

lemma fl64_floor:
  assumes "0 \<le> k" and "of_int k \<le> x" and "x \<le> of_int k + 1 - 1 / 2 ^ j"
    and "x < 2 ^ (53 - j)" and "j \<le> 53"
  shows "\<lfloor>fl64 x\<rfloor> = k"
proof (cases "x = 0")
  case True
  with assms(1,2) have "k = 0" by simp
  with True show ?thesis by (simp add: fl64_def)
next
  case False
  with assms(1,2) have x: "0 < x" by (smt (verit) of_int_0_le_iff order_trans order_le_less)
  obtain n where n: "of_int (k * 2 ^ j) / 2 ^ j = of_int n * power_int (2::rat) (expo x - 52)"
    using on_grid [OF x assms(4,5)] by blast
  have lo: "of_int k \<le> fl64 x"
    using fl64_ge_grid [OF x n] assms(2) by simp
  obtain m where m: "of_int ((k + 1) * 2 ^ j - 1) / 2 ^ j = of_int m * power_int (2::rat) (expo x - 52)"
    using on_grid [OF x assms(4,5)] by blast
  have "of_int ((k + 1) * 2 ^ j - 1) / 2 ^ j = (of_int k + 1 - 1 / 2 ^ j :: rat)"
    by (simp add: field_simps)
  then have "fl64 x \<le> of_int k + 1 - 1 / 2 ^ j"
    using fl64_le_grid [OF x m] assms(3) by simp
  moreover have "(0::rat) < 1 / 2 ^ j" by simp
  ultimately have hi: "fl64 x < of_int k + 1" by linarith
  from lo hi show ?thesis by (simp add: floor_unique)
qed

lemma fl64_of_nat:
  assumes "n < 2 ^ 53"
  shows "fl64 (of_nat n) = of_nat n"
proof (cases "n = 0")
  case True
  then show ?thesis by (simp add: fl64_def)
next
  case False
  then have x: "(0::rat) < of_nat n" by simp
  have b: "(of_nat n :: rat) < 2 ^ (53 - 0)"
    using assms by (metis diff_zero of_nat_less_numeral_power_cancel_iff)
  obtain m where m: "of_int (int n) / 2 ^ 0 = of_int m * power_int (2::rat) (expo (of_nat n) - 52)"
    using on_grid [OF x b] by blast
  have "of_nat n \<le> fl64 (of_nat n)" using fl64_ge_grid [OF x m] by simp
  moreover have "fl64 (of_nat n) \<le> of_nat n" using fl64_le_grid [OF x m] by simp
  ultimately show ?thesis by simp
qed

lemma drop_fraction_fl64:
  assumes "0 \<le> k" and "of_int k \<le> x" and "x \<le> of_int k + 1 - 1 / 2 ^ j"
    and "x < 2 ^ (53 - j)" and "j \<le> 53"
  shows "drop_fraction (fl64 x) = k"
proof -
  have f: "\<lfloor>fl64 x\<rfloor> = k" using assms by (rule fl64_floor)
  with assms(1) have "0 \<le> \<lfloor>fl64 x\<rfloor>" by simp
  then have "0 \<le> fl64 x" by (simp add: zero_le_floor)
  with f show ?thesis by (simp add: drop_fraction_def)
qed


section \<open>Rotation and thumbnail policy\<close>

lemma blank_size: "0 < h \<Longrightarrow> im_size (image_new m (w, h) c) = (w, h)"
  by (simp add: im_size_def image_new_def)

text \<open>
  C5. For an image of width \<open>w\<close> and height \<open>h\<close>, \<open>needs_rotation\<close> is true exactly
  when \<open>w = 4000\<close> and \<open>w > h\<close>: it is true at (4000, 3000), false at (4000, 4000)
  and at (3000, 4000), and false for every square image.
\<close>

theorem needs_rotation_iff:
  "im_size img = (w, h) \<Longrightarrow>
     (needs_rotation img \<longleftrightarrow> w = 4000 \<and> w > h) \<and>
     ((w, h) = (4000, 3000) \<longrightarrow> needs_rotation img) \<and>
     ((w, h) = (4000, 4000) \<longrightarrow> \<not> needs_rotation img) \<and>
     ((w, h) = (3000, 4000) \<longrightarrow> \<not> needs_rotation img) \<and>
     (w = h \<longrightarrow> \<not> needs_rotation img)"
  by (auto simp add: needs_rotation_def)

theorem needs_rotation_iff_witness:
  "needs_rotation (image_new ''RGB'' (4000, 3000) (0, 0, 0)) \<and>
   \<not> needs_rotation (image_new ''RGB'' (4000, 4000) (0, 0, 0)) \<and>
   \<not> needs_rotation (image_new ''RGB'' (3000, 4000) (0, 0, 0))"
  using needs_rotation_iff [of "image_new ''RGB'' (4000, 3000) (0, 0, 0)" 4000 3000]
    needs_rotation_iff [of "image_new ''RGB'' (4000, 4000) (0, 0, 0)" 4000 4000]
    needs_rotation_iff [of "image_new ''RGB'' (3000, 4000) (0, 0, 0)" 3000 4000]
  by (simp add: blank_size)

text \<open>
  The product of an axis below \<open>2\<^sup>3\<^sup>1\<close> (the library's sizes are C integers) with
  the double \<open>0.2\<close>, rounded and cut to an integer, is the fifth of the axis rounded
  down: \<open>0.2\<close> as a double lies above one fifth by less than \<open>2\<^sup>-\<^sup>5\<^sup>6\<close>.
\<close>

lemma default_scale_value: "fl64 (2 / 10) = 3602879701896397 / 18014398509481984"
  by code_simp

lemma scaled_axis:
  assumes "n < 2 ^ 31"
  shows "py_int (fmul (py_float (int n)) (fl64 (2 / 10))) = int (n div 5)"
proof -
  let ?s = "3602879701896397 / 18014398509481984 :: rat"
  have n53: "n < 2 ^ 53" using assms by simp
  have pf: "py_float (int n) = of_nat n"
    using fl64_of_nat [OF n53] by (simp add: py_float_def)
  have nr: "rat_of_nat n < 2 ^ 31"
    using assms by (metis of_nat_less_numeral_power_cancel_iff)
  have split: "rat_of_nat n = 5 * rat_of_nat (n div 5) + rat_of_nat (n mod 5)"
    by (metis mult_div_mod_eq of_nat_add of_nat_mult of_nat_numeral)
  have r4: "rat_of_nat (n mod 5) \<le> 4"
  proof -
    have "n mod 5 \<le> 4" by simp
    then show ?thesis by (metis of_nat_le_iff of_nat_numeral)
  qed
  have r0: "0 \<le> rat_of_nat (n mod 5)" and k0: "0 \<le> rat_of_nat (n div 5)" by simp_all
  have lo: "of_int (int (n div 5)) \<le> rat_of_nat n * ?s"
    using split r0 k0 by simp
  have hi: "rat_of_nat n * ?s \<le> of_int (int (n div 5)) + 1 - 1 / 2 ^ 3"
    using split r4 r0 k0 nr by simp
  have bd: "rat_of_nat n * ?s < 2 ^ (53 - 3)"
    using nr by simp
  have "drop_fraction (fl64 (rat_of_nat n * ?s)) = int (n div 5)"
    by (rule drop_fraction_fl64 [OF _ lo hi bd]) simp_all
  then show ?thesis
    unfolding py_int_def fmul_def pf default_scale_value by simp
qed

lemma scaled_axis_simp:
  "n < 2 ^ 31 \<Longrightarrow> py_int (fmul (py_float (int n)) (fl64 (1 / 5))) = int (n div 5)"
  using scaled_axis [of n] by simp

lemma expected_thumb_size_div:
  "w < 2 ^ 31 \<Longrightarrow> h < 2 ^ 31 \<Longrightarrow> expected_thumb_size (w, h) = (int (w div 5), int (h div 5))"
  by (simp add: expected_thumb_size_def scaled_axis_simp)

lemma scaled_100_by_029: "py_int (fmul (py_float 100) (fl64 (29 / 100))) = 28"
  by code_simp

lemma scaled_10_by_03: "py_int (fmul (py_float 10) (fl64 (3 / 10))) = 3"
  by code_simp

lemma exact_10_by_03: "\<lfloor>10 * fl64 (3 / 10)\<rfloor> = 2"
  by code_simp

text \<open>
  C7, as stated, fails: the scale factor is a double and the product is rounded to a
  double before its fraction is dropped. At width 100 and scale 0.29 the code returns
  28, and \<open>\<lfloor>100 \<cdot> 29/100\<rfloor> = 29\<close>. Reading the scale as the exact value of the double
  does not help: at width 10 and scale 0.3 the code returns 3, and the floor of the
  exact product of 10 with the double 0.3 is 2.
\<close>

theorem thumb_size_scale_counterexample:
  "new_size (image_new ''RGB'' (100, 100) (0, 0, 0)) (fl64 (29 / 100)) = (28, 28) \<and>
   \<lfloor>rat_of_nat 100 * (29 / 100)\<rfloor> = 29 \<and>
   new_size (image_new ''RGB'' (10, 10) (0, 0, 0)) (fl64 (3 / 10)) = (3, 3) \<and>
   \<lfloor>rat_of_nat 10 * fl64 (3 / 10)\<rfloor> = 2"
  using exact_10_by_03 by (simp add: new_size_def blank_size scaled_100_by_029 scaled_10_by_03)

text \<open>
  C7, amended. With the scale factor 0.2, the default of \<open>create_thumbnail\<close> and the
  constant of \<open>check_and_fix_thumbnails\<close>, the thumbnail size of an image whose axes
  are below \<open>2\<^sup>3\<^sup>1\<close> is \<open>(\<lfloor>width \<cdot> 2/10\<rfloor>, \<lfloor>height \<cdot> 2/10\<rfloor>)\<close>, with 2/10 the
  exact rational; for (1000, 2000) it is (200, 400).
\<close>

theorem expected_thumb_size_default:
  assumes "im_size img = (w, h)" and "w < 2 ^ 31" and "h < 2 ^ 31"
  shows "new_size img default_scale_factor
           = (\<lfloor>rat_of_nat w * (2 / 10)\<rfloor>, \<lfloor>rat_of_nat h * (2 / 10)\<rfloor>) \<and>
         expected_thumb_size (w, h)
           = (\<lfloor>rat_of_nat w * (2 / 10)\<rfloor>, \<lfloor>rat_of_nat h * (2 / 10)\<rfloor>) \<and>
         ((w, h) = (1000, 2000) \<longrightarrow> expected_thumb_size (w, h) = (200, 400))"
proof -
  have fl: "\<lfloor>rat_of_nat n * (2 / 10)\<rfloor> = int (n div 5)" for n
  proof -
    have "rat_of_nat n * (2 / 10) = rat_of_nat n / rat_of_nat 5" by simp
    then show ?thesis by (simp only: floor_divide_of_nat_eq)
  qed
  have "new_size img default_scale_factor = (int (w div 5), int (h div 5))"
    using assms by (simp add: new_size_def default_scale_factor_def scaled_axis_simp)
  moreover have "expected_thumb_size (w, h) = (int (w div 5), int (h div 5))"
    using assms by (simp add: expected_thumb_size_div)
  moreover have "(w, h) = (1000, 2000) \<longrightarrow> expected_thumb_size (w, h) = (200, 400)"
    using expected_thumb_size_div [of 1000 2000] by simp
  ultimately show ?thesis by (simp only: fl)
qed

theorem expected_thumb_size_default_witness:
  "new_size (image_new ''RGB'' (1000, 2000) (0, 0, 0)) default_scale_factor = (200, 400) \<and>
   expected_thumb_size (1000, 2000) = (200, 400)"
  using expected_thumb_size_default [of "image_new ''RGB'' (1000, 2000) (0, 0, 0)" 1000 2000]
  by (simp add: blank_size)

text \<open>
  C8. The tolerance test on an existing thumbnail holds exactly when both axes are
  within one pixel of the expected size: it holds for (201, 399) against (200, 400)
  and fails for (210, 400). For an original that needs no rotation and a readable
  thumbnail, the thumbnail is created again exactly when the test fails.
\<close>

theorem thumb_size_ok_iff:
  "(thumb_size_ok (tw, th) (ew, eh) \<longleftrightarrow> \<bar>int tw - ew\<bar> \<le> 1 \<and> \<bar>int th - eh\<bar> \<le> 1) \<and>
   thumb_size_ok (201, 399) (200, 400) \<and>
   \<not> thumb_size_ok (210, 400) (200, 400) \<and>
   (\<not> needs_rotation original \<longrightarrow>
      needs_creation original (Picture thumb)
      = (\<not> thumb_size_ok (im_size thumb) (expected_thumb_size (im_size original))))"
  by (simp add: thumb_size_ok_def needs_creation_def get_image_size_def image_open_def)

theorem thumb_size_ok_iff_witness:
  "\<not> needs_rotation (image_new ''RGB'' (1000, 2000) (0, 0, 0)) \<and>
   \<not> needs_creation (image_new ''RGB'' (1000, 2000) (0, 0, 0))
        (Picture (image_new ''RGB'' (201, 399) (0, 0, 0)))"
proof -
  have e: "expected_thumb_size (1000, 2000) = (200, 400)"
    using expected_thumb_size_div [of 1000 2000] by simp
  have r: "\<not> needs_rotation (image_new ''RGB'' (1000, 2000) (0, 0, 0))"
    by (simp add: needs_rotation_def blank_size)
  from r thumb_size_ok_iff [of 201 399 200 400 "image_new ''RGB'' (1000, 2000) (0, 0, 0)"
      "image_new ''RGB'' (201, 399) (0, 0, 0)"]
  show ?thesis by (simp add: blank_size e)
qed


section \<open>Arrays and channels\<close>

lemma chan_map_rgb: "chan c (map_rgb f p) = f (chan c p)"
  by (cases p) simp

lemma chan_set_chan_same: "c \<le> 2 \<Longrightarrow> chan c (set_chan c v p) = v"
  by (cases p) simp

lemma chan_set_chan_other: "c \<noteq> c' \<Longrightarrow> c \<le> 2 \<Longrightarrow> c' \<le> 2 \<Longrightarrow> chan c (set_chan c' v p) = chan c p"
  by (cases p) auto

lemma set_chan_same: "c \<le> 2 \<Longrightarrow> set_chan c (chan c p) p = p"
  by (cases p) auto

lemma map2_same: "map2 f (map a xs) (map b xs) = map (\<lambda>x. f (a x) (b x)) xs"
  by (induction xs) simp_all

lemma fold_max_of_nat:
  "fold max (map rat_of_nat ns) (rat_of_nat n) = rat_of_nat (Max (set (n # ns)))"
proof (induction ns arbitrary: n)
  case Nil
  then show ?case by simp
next
  case (Cons m ns)
  have "fold max (map rat_of_nat (m # ns)) (rat_of_nat n)
        = fold max (map rat_of_nat ns) (rat_of_nat (max m n))"
    by (simp add: max_def)
  also have "\<dots> = rat_of_nat (Max (set (max m n # ns)))" by (rule Cons.IH)
  also have "Max (set (max m n # ns)) = Max (set (n # m # ns))"
    by (cases "ns = []") (simp_all add: max.commute max.left_commute max.assoc)
  finally show ?case .
qed

lemma fold_min_of_nat:
  "fold min (map rat_of_nat ns) (rat_of_nat n) = rat_of_nat (Min (set (n # ns)))"
proof (induction ns arbitrary: n)
  case Nil
  then show ?case by simp
next
  case (Cons m ns)
  have "fold min (map rat_of_nat (m # ns)) (rat_of_nat n)
        = fold min (map rat_of_nat ns) (rat_of_nat (min m n))"
    by (simp add: min_def)
  also have "\<dots> = rat_of_nat (Min (set (min m n # ns)))" by (rule Cons.IH)
  also have "Min (set (min m n # ns)) = Min (set (n # m # ns))"
    by (cases "ns = []") (simp_all add: min.commute min.left_commute min.assoc)
  finally show ?case .
qed

lemma plane_astype:
  "plane c (astype_float64 R) = map (map (\<lambda>p. rat_of_nat (unat (chan c p)))) R"
  by (simp add: plane_def astype_float64_def chan_map_rgb)

lemma concat_plane_astype:
  "concat (plane c (astype_float64 R)) = map rat_of_nat (map (\<lambda>p. unat (chan c p)) (concat R))"
  by (simp add: plane_astype map_concat comp_def)

lemma np_max_plane:
  assumes "concat R \<noteq> []"
  shows "np_max (plane c (astype_float64 R))
         = Inr (rat_of_nat (Max (set (map (\<lambda>p. unat (chan c p)) (concat R)))))"
proof -
  obtain n ns where ns: "map (\<lambda>p. unat (chan c p)) (concat R) = n # ns"
    using assms by (cases "map (\<lambda>p. unat (chan c p)) (concat R)") auto
  show ?thesis
    unfolding np_max_def concat_plane_astype ns by (simp add: fold_max_of_nat)
qed

lemma np_min_plane:
  assumes "concat R \<noteq> []"
  shows "np_min (plane c (astype_float64 R))
         = Inr (rat_of_nat (Min (set (map (\<lambda>p. unat (chan c p)) (concat R)))))"
proof -
  obtain n ns where ns: "map (\<lambda>p. unat (chan c p)) (concat R) = n # ns"
    using assms by (cases "map (\<lambda>p. unat (chan c p)) (concat R)") auto
  show ?thesis
    unfolding np_min_def concat_plane_astype ns by (simp add: fold_min_of_nat)
qed

text \<open>
  One round of the loop over the channels: at a position of the raster the new sample of
  channel \<open>c\<close> comes from the sample of the input there, and from the minimum and
  the maximum of that channel alone.
\<close>

lemma levels_channel_eq:
  assumes ne: "concat R \<noteq> []" and c: "c \<le> 2"
    and G: "\<And>p. chan c (G p) = rat_of_nat (unat (chan c p))"
  shows "levels_channel (astype_float64 R) (map (map G) R) c
         = Inr (map (map (\<lambda>p. set_chan c
                  (levels_sample (rat_of_nat (Min (set (map (\<lambda>p. unat (chan c p)) (concat R)))))
                                 (rat_of_nat (Max (set (map (\<lambda>p. unat (chan c p)) (concat R)))))
                                 (rat_of_nat (unat (chan c p))))
                  (G p))) R)"
proof -
  let ?lo = "rat_of_nat (Min (set (map (\<lambda>p. unat (chan c p)) (concat R))))"
  let ?hi = "rat_of_nat (Max (set (map (\<lambda>p. unat (chan c p)) (concat R))))"
  show ?thesis
  proof (cases "?lo < ?hi")
    case True
    then show ?thesis
      unfolding levels_channel_def Let_def np_min_plane [OF ne] np_max_plane [OF ne] and_then_def
      by (simp add: plane_astype assign_plane_def map2_same levels_sample_def)
  next
    case False
    have "set_chan c (rat_of_nat (unat (chan c p))) (G p) = G p" for p
      using set_chan_same [OF c, of "G p"] by (simp add: G)
    with False show ?thesis
      unfolding levels_channel_def Let_def np_min_plane [OF ne] np_max_plane [OF ne] and_then_def
      by (simp add: levels_sample_def)
  qed
qed


lemma levels_loop_eq:
  assumes ne: "concat R \<noteq> []"
  shows "levels_loop (astype_float64 R) (astype_float64 R) [0, 1, 2]
         = Inr (map (map (\<lambda>p.
             (levels_sample (rat_of_nat (Min (set (map (\<lambda>p. unat (chan 0 p)) (concat R)))))
                            (rat_of_nat (Max (set (map (\<lambda>p. unat (chan 0 p)) (concat R)))))
                            (rat_of_nat (unat (chan 0 p))),
              levels_sample (rat_of_nat (Min (set (map (\<lambda>p. unat (chan 1 p)) (concat R)))))
                            (rat_of_nat (Max (set (map (\<lambda>p. unat (chan 1 p)) (concat R)))))
                            (rat_of_nat (unat (chan 1 p))),
              levels_sample (rat_of_nat (Min (set (map (\<lambda>p. unat (chan 2 p)) (concat R)))))
                            (rat_of_nat (Max (set (map (\<lambda>p. unat (chan 2 p)) (concat R)))))
                            (rat_of_nat (unat (chan 2 p)))))) R)"
proof -
  define S where "S c p = levels_sample
      (rat_of_nat (Min (set (map (\<lambda>p. unat (chan c p)) (concat R)))))
      (rat_of_nat (Max (set (map (\<lambda>p. unat (chan c p)) (concat R)))))
      (rat_of_nat (unat (chan c p)))" for c :: nat and p :: "u8 rgb"
  define G0 :: "u8 rgb \<Rightarrow> rat rgb" where "G0 = map_rgb (\<lambda>v. rat_of_nat (unat v))"
  define G1 where "G1 p = set_chan 0 (S 0 p) (G0 p)" for p
  define G2 where "G2 p = set_chan 1 (S 1 p) (G1 p)" for p
  define G3 where "G3 p = set_chan 2 (S 2 p) (G2 p)" for p
  have a: "astype_float64 R = map (map G0) R"
    by (simp add: astype_float64_def G0_def)
  have s0: "levels_channel (astype_float64 R) (map (map G0) R) 0 = Inr (map (map G1) R)"
    unfolding G1_def S_def
    by (rule levels_channel_eq [OF ne]) (simp_all add: G0_def chan_map_rgb)
  have s1: "levels_channel (astype_float64 R) (map (map G1) R) 1 = Inr (map (map G2) R)"
    unfolding G2_def S_def
    by (rule levels_channel_eq [OF ne])
       (simp_all add: G1_def G0_def chan_map_rgb chan_set_chan_other)
  have s2: "levels_channel (astype_float64 R) (map (map G2) R) 2 = Inr (map (map G3) R)"
    unfolding G3_def S_def
    by (rule levels_channel_eq [OF ne])
       (simp_all add: G2_def G1_def G0_def chan_map_rgb chan_set_chan_other)
  have g3: "G3 p = (S 0 p, S 1 p, S 2 p)" for p
    by (cases p) (simp add: G3_def G2_def G1_def G0_def)
  have "levels_loop (astype_float64 R) (map (map G0) R) [0, 1, 2] = Inr (map (map G3) R)"
    using s0 s1 s2 by (simp add: and_then_def)
  then show ?thesis
    unfolding a g3 S_def .
qed

lemma clip_floor:
  assumes "\<lfloor>y\<rfloor> = k" and "0 \<le> k" and "k \<le> 255"
  shows "\<lfloor>min 255 (max 0 y)\<rfloor> = k" and "0 \<le> min 255 (max 0 y)"
proof -
  from assms(1,2) have y0: "0 \<le> y" by (metis zero_le_floor)
  show "0 \<le> min 255 (max 0 y)" by simp
  show "\<lfloor>min 255 (max 0 y)\<rfloor> = k"
  proof (cases "y \<le> 255")
    case True
    with y0 assms(1) show ?thesis by (simp add: min_def max_def)
  next
    case False
    then have "255 \<le> \<lfloor>y\<rfloor>" by (simp add: le_floor_iff)
    with assms have "k = 255" by simp
    with False y0 show ?thesis by (simp add: min_def max_def)
  qed
qed

text \<open>
  The quotient of two integers, the divisor at most 255, never lies within \<open>1/256\<close>
  below the next integer: the double nearest to it has the same integer part.
\<close>

lemma quotient_bounds:
  fixes a b :: nat
  assumes "0 < b" and "b \<le> 255"
  shows "rat_of_int (int (a div b)) \<le> rat_of_nat a / rat_of_nat b"
    and "rat_of_nat a / rat_of_nat b \<le> rat_of_int (int (a div b)) + 1 - 1 / 2 ^ 8"
proof -
  define k r where "k = a div b" and "r = a mod b"
  have a: "rat_of_nat a = rat_of_nat k * rat_of_nat b + rat_of_nat r"
    unfolding k_def r_def by (metis div_mult_mod_eq of_nat_add of_nat_mult)
  have b0: "0 < rat_of_nat b" using assms(1) by simp
  have b255: "rat_of_nat b \<le> 255" using assms(2) by (metis of_nat_le_iff of_nat_numeral)
  have "r < b" unfolding r_def using assms(1) by simp
  then have "r + 1 \<le> b" by simp
  then have r: "rat_of_nat r + 1 \<le> rat_of_nat b" by (metis of_nat_1 of_nat_add of_nat_le_iff)
  have r0: "0 \<le> rat_of_nat r" by simp
  show "rat_of_int (int (a div b)) \<le> rat_of_nat a / rat_of_nat b"
    using b0 r0 by (simp add: a k_def [symmetric] pos_le_divide_eq)
  have "rat_of_nat a \<le> (rat_of_nat k + 1 - 1 / 256) * rat_of_nat b"
    using b0 b255 r by (simp add: a algebra_simps)
  then show "rat_of_nat a / rat_of_nat b \<le> rat_of_int (int (a div b)) + 1 - 1 / 2 ^ 8"
    using b0 by (simp add: k_def [symmetric] pos_divide_le_eq)
qed

lemma levels_sample_exact:
  assumes "lo \<le> v" and "v \<le> hi" and "hi \<le> 255"
  shows "drop_fraction (min 255 (max 0
           (levels_sample (rat_of_nat lo) (rat_of_nat hi) (rat_of_nat v)))) = int (stretch lo hi v)"
proof (cases "lo < hi")
  case False
  have "rat_of_nat v \<le> 255" using assms by (metis le_trans of_nat_le_iff of_nat_numeral)
  then have "min 255 (max 0 (rat_of_nat v)) = rat_of_nat v" by (simp add: min_def max_def)
  with False show ?thesis
    by (simp add: levels_sample_def stretch_def drop_fraction_def)
next
  case True
  define a b where "a = (v - lo) * 255" and "b = hi - lo"
  have b0: "0 < b" and b255: "b \<le> 255" using True assms by (simp_all add: b_def)
  have vl: "v - lo \<le> b" using assms by (simp add: b_def)
  have a_le: "a \<le> 255 * b" using vl by (simp add: a_def)
  have a_bd: "a \<le> 65025" using a_le b255 by simp
  have k255: "a div b \<le> 255"
    using a_le b0 by (metis div_le_mono nonzero_mult_div_cancel_right less_numeral_extra(3))
  have e1: "fsub (rat_of_nat v) (rat_of_nat lo) = rat_of_nat (v - lo)"
  proof -
    have "v - lo < 2 ^ 53" using assms by simp
    then show ?thesis using assms(1) by (simp add: fsub_def of_nat_diff [symmetric] fl64_of_nat del: of_nat_diff)
  qed
  have e2: "fmul (rat_of_nat (v - lo)) 255 = rat_of_nat a"
  proof -
    have "a < 2 ^ 53" using a_bd by simp
    then have "fl64 (rat_of_nat a) = rat_of_nat a" by (rule fl64_of_nat)
    then show ?thesis by (simp add: fmul_def a_def)
  qed
  have e3: "fsub (rat_of_nat hi) (rat_of_nat lo) = rat_of_nat b"
  proof -
    have "b < 2 ^ 53" using b255 by simp
    then have "fl64 (rat_of_nat b) = rat_of_nat b" by (rule fl64_of_nat)
    then show ?thesis using True by (simp add: fsub_def b_def)
  qed
  let ?x = "rat_of_nat a / rat_of_nat b"
  have x_le: "?x \<le> rat_of_nat a"
    using b0 by (simp add: pos_divide_le_eq mult_le_cancel_left1)
  have "rat_of_nat a \<le> 65025" using a_bd by (metis of_nat_le_iff of_nat_numeral)
  with x_le have x_bd: "?x < 2 ^ (53 - 8)" by simp
  have fl: "\<lfloor>fl64 ?x\<rfloor> = int (a div b)"
    by (rule fl64_floor [OF _ quotient_bounds [OF b0 b255] x_bd]) simp_all
  have ex: "\<lfloor>?x\<rfloor> = int (a div b)" by (simp add: floor_divide_of_nat_eq)
  have k: "(0::int) \<le> int (a div b)" "int (a div b) \<le> 255" using k255 by simp_all
  have code: "drop_fraction (min 255 (max 0 (fl64 ?x))) = int (a div b)"
    using clip_floor [OF fl k] by (simp add: drop_fraction_def)
  have "(rat_of_nat v - rat_of_nat lo) * 255 / (rat_of_nat hi - rat_of_nat lo) = ?x"
    using assms True by (simp add: a_def b_def)
  then have spec: "stretch lo hi v = a div b"
    using True clip_floor(1) [OF ex k] by (simp add: stretch_def)
  show ?thesis
    using True code by (simp add: levels_sample_def e1 e2 e3 fdiv_def spec)
qed

lemma im_size_map: "im_size \<lparr>mode = m, raster = map (map f) R\<rparr> = im_size \<lparr>mode = m', raster = R\<rparr>"
  by (simp add: im_size_def hd_map)

lemma map_map_cong:
  assumes "\<And>p. p \<in> set (concat R) \<Longrightarrow> f p = g p"
  shows "map (map f) R = map (map g) R"
  using assms by (auto intro!: map_cong)

lemma unat_u8_le: "unat (w :: u8) \<le> 255"
  using unsigned_less [of w, where 'a = nat] by simp

lemma channel_value_bounds:
  assumes "p \<in> set (concat (raster img))"
  shows "Min (set (channel_values c img)) \<le> unat (chan c p)"
    and "unat (chan c p) \<le> Max (set (channel_values c img))"
    and "Max (set (channel_values c img)) \<le> 255"
proof -
  have m: "unat (chan c p) \<in> set (channel_values c img)"
    using assms by (simp add: channel_values_def)
  show "Min (set (channel_values c img)) \<le> unat (chan c p)" using m by simp
  show "unat (chan c p) \<le> Max (set (channel_values c img))" using m by simp
  have ne: "set (channel_values c img) \<noteq> {}" using m by auto
  have "\<forall>n \<in> set (channel_values c img). n \<le> 255"
    by (simp add: channel_values_def unat_u8_le)
  then show "Max (set (channel_values c img)) \<le> 255" using ne by simp
qed

lemma auto_levels_pixel_code:
  assumes "p \<in> set (concat (raster img))"
  shows "map_rgb (\<lambda>x. word_of_int (drop_fraction x)) (map_rgb (\<lambda>x. min 255 (max 0 x))
          (levels_sample (rat_of_nat (Min (set (channel_values 0 img))))
                         (rat_of_nat (Max (set (channel_values 0 img))))
                         (rat_of_nat (unat (chan 0 p))),
           levels_sample (rat_of_nat (Min (set (channel_values 1 img))))
                         (rat_of_nat (Max (set (channel_values 1 img))))
                         (rat_of_nat (unat (chan 1 p))),
           levels_sample (rat_of_nat (Min (set (channel_values 2 img))))
                         (rat_of_nat (Max (set (channel_values 2 img))))
                         (rat_of_nat (unat (chan 2 p)))))
         = auto_levels_pixel img p"
proof -
  have s: "drop_fraction (min 255 (max 0
             (levels_sample (rat_of_nat (Min (set (channel_values c img))))
                            (rat_of_nat (Max (set (channel_values c img))))
                            (rat_of_nat (unat (chan c p))))))
           = int (stretch (Min (set (channel_values c img))) (Max (set (channel_values c img)))
                    (unat (chan c p)))" for c
    by (rule levels_sample_exact [OF channel_value_bounds [OF assms]])
  show ?thesis
    unfolding auto_levels_pixel_def map_rgb.simps s by (simp only: of_int_of_nat_eq)
qed

lemma apply_auto_levels_eq:
  assumes "concat (raster (ensure_rgb convert img)) \<noteq> []"
  shows "apply_auto_levels convert img
         = Inr \<lparr>mode = ''RGB'', raster = map (map (auto_levels_pixel (ensure_rgb convert img)))
                                         (raster (ensure_rgb convert img))\<rparr>"
proof -
  let ?img = "ensure_rgb convert img"
  let ?S = "\<lambda>p.
             (levels_sample (rat_of_nat (Min (set (channel_values 0 ?img))))
                            (rat_of_nat (Max (set (channel_values 0 ?img))))
                            (rat_of_nat (unat (chan 0 p))),
              levels_sample (rat_of_nat (Min (set (channel_values 1 ?img))))
                            (rat_of_nat (Max (set (channel_values 1 ?img))))
                            (rat_of_nat (unat (chan 1 p))),
              levels_sample (rat_of_nat (Min (set (channel_values 2 ?img))))
                            (rat_of_nat (Max (set (channel_values 2 ?img))))
                            (rat_of_nat (unat (chan 2 p))))"
  have "apply_auto_levels convert img
        = Inr (fromarray (np_uint8 (np_clip (map (map ?S) (raster ?img)) 0 255)))"
    unfolding apply_auto_levels_def Let_def np_array_def levels_loop_eq [OF assms]
      channel_values_def
    by (simp only: and_then_def sum.case)
  also have "np_uint8 (np_clip (map (map ?S) (raster ?img)) 0 255)
             = map (map (\<lambda>p. map_rgb (\<lambda>x. word_of_int (drop_fraction x))
                            (map_rgb (\<lambda>x. min 255 (max 0 x)) (?S p)))) (raster ?img)"
    unfolding np_uint8_def np_clip_def by (simp only: map_map comp_def)
  also have "\<dots> = map (map (auto_levels_pixel ?img)) (raster ?img)"
    by (rule map_map_cong) (rule auto_levels_pixel_code)
  finally show ?thesis by (simp only: fromarray_def)
qed

lemma apply_auto_levels_empty:
  assumes "concat (raster (ensure_rgb convert img)) = []"
  shows "apply_auto_levels convert img = Inl ValueError"
proof -
  have "concat (plane 0 (astype_float64 (raster (ensure_rgb convert img)))) = []"
    unfolding concat_plane_astype assms by simp
  then have "np_min (plane 0 (astype_float64 (raster (ensure_rgb convert img)))) = Inl ValueError"
    by (simp only: np_min_def list.case)
  then show ?thesis
    unfolding apply_auto_levels_def Let_def np_array_def levels_loop.simps levels_channel_def
    by (simp only: and_then_def sum.case)
qed

lemma stretch_le: "v \<le> 255 \<Longrightarrow> stretch lo hi v \<le> 255"
proof (cases "lo < hi")
  case True
  define x where "x = (rat_of_nat v - rat_of_nat lo) * 255 / (rat_of_nat hi - rat_of_nat lo)"
  have "\<lfloor>min 255 (max 0 x)\<rfloor> \<le> \<lfloor>255 :: rat\<rfloor>" by (rule floor_mono) simp
  then have "\<lfloor>min 255 (max 0 x)\<rfloor> \<le> 255" by (simp only: floor_numeral)
  then have "nat \<lfloor>min 255 (max 0 x)\<rfloor> \<le> 255" by linarith
  with True show ?thesis unfolding stretch_def x_def by (simp only: if_True)
next
  case False
  assume "v \<le> 255"
  with False show ?thesis by (simp add: stretch_def)
qed

lemma stretch_full_range: "n \<le> 255 \<Longrightarrow> stretch 0 255 n = n"
proof -
  assume "n \<le> 255"
  then have "rat_of_nat n \<le> 255" by (metis of_nat_le_iff of_nat_numeral)
  then have "min 255 (max 0 (rat_of_nat n)) = rat_of_nat n" by (simp add: min_def max_def)
  then show ?thesis by (simp add: stretch_def)
qed

lemma stretch_idem:
  assumes ne: "vs \<noteq> []" and b: "\<forall>v \<in> set vs. v \<le> 255" and v: "v \<in> set vs"
  shows "stretch (Min (set (map (stretch (Min (set vs)) (Max (set vs))) vs)))
                 (Max (set (map (stretch (Min (set vs)) (Max (set vs))) vs)))
                 (stretch (Min (set vs)) (Max (set vs)) v)
         = stretch (Min (set vs)) (Max (set vs)) v"
proof (cases "Min (set vs) < Max (set vs)")
  case False
  then have "map (stretch (Min (set vs)) (Max (set vs))) vs = vs"
    by (simp add: stretch_def map_idI)
  with False show ?thesis by (simp add: stretch_def)
next
  case True
  let ?lo = "Min (set vs)" and ?hi = "Max (set vs)"
  let ?vs' = "map (stretch ?lo ?hi) vs"
  have lo_in: "?lo \<in> set vs" and hi_in: "?hi \<in> set vs" using ne by simp_all
  have s_lo: "stretch ?lo ?hi ?lo = 0" using True by (simp add: stretch_def)
  have "rat_of_nat ?lo < rat_of_nat ?hi" using True by (simp only: of_nat_less_iff)
  then have "rat_of_nat ?hi - rat_of_nat ?lo \<noteq> 0" by simp
  then have "(rat_of_nat ?hi - rat_of_nat ?lo) * 255 / (rat_of_nat ?hi - rat_of_nat ?lo) = 255"
    by (rule nonzero_mult_div_cancel_left)
  then have s_hi: "stretch ?lo ?hi ?hi = 255"
    unfolding stretch_def using True by (simp only: if_True) simp
  have in0: "0 \<in> set ?vs'" using lo_in s_lo by (metis image_eqI set_map)
  have in255: "255 \<in> set ?vs'" using hi_in s_hi by (metis image_eqI set_map)
  have le: "\<forall>n \<in> set ?vs'. n \<le> 255" using b by (simp add: stretch_le)
  have mn: "Min (set ?vs') = 0" using in0 by (intro Min_eqI) simp_all
  have mx: "Max (set ?vs') = 255" using in255 le by (intro Max_eqI) auto
  have "stretch ?lo ?hi v \<le> 255" using b v by (simp add: stretch_le)
  then show ?thesis unfolding mn mx by (rule stretch_full_range)
qed

lemma chan_auto_levels_pixel:
  "c \<le> 2 \<Longrightarrow> chan c (auto_levels_pixel img p)
     = word_of_nat (stretch (Min (set (channel_values c img))) (Max (set (channel_values c img)))
                      (unat (chan c p)))"
proof -
  assume "c \<le> 2"
  then consider "c = 0" | "c = 1" | "c = 2" by linarith
  then show ?thesis by cases (simp_all add: auto_levels_pixel_def)
qed

lemma unat_stretch:
  "unat (word_of_nat (stretch lo hi (unat (w :: u8))) :: u8) = stretch lo hi (unat w)"
proof -
  have "stretch lo hi (unat w) \<le> 255" by (rule stretch_le) (rule unat_u8_le)
  then show ?thesis by (simp add: unat_of_nat)
qed

lemma channel_values_levelled:
  assumes "c \<le> 2"
  shows "channel_values c \<lparr>mode = m, raster = map (map (auto_levels_pixel img)) (raster img)\<rparr>
         = map (stretch (Min (set (channel_values c img))) (Max (set (channel_values c img))))
             (channel_values c img)"
  by (simp add: channel_values_def map_concat comp_def
      chan_auto_levels_pixel [OF assms] unat_stretch)

lemma auto_levels_pixel_idem:
  assumes "p \<in> set (concat (raster img))"
  shows "auto_levels_pixel \<lparr>mode = m, raster = map (map (auto_levels_pixel img)) (raster img)\<rparr>
           (auto_levels_pixel img p) = auto_levels_pixel img p"
proof -
  let ?out = "\<lparr>mode = m, raster = map (map (auto_levels_pixel img)) (raster img)\<rparr>"
  have c: "word_of_nat (stretch (Min (set (channel_values c ?out))) (Max (set (channel_values c ?out)))
             (unat (chan c (auto_levels_pixel img p)))) = chan c (auto_levels_pixel img p)"
    if "c \<le> 2" for c
  proof -
    let ?vs = "channel_values c img"
    have in_vs: "unat (chan c p) \<in> set ?vs" using assms by (simp add: channel_values_def)
    then have ne: "?vs \<noteq> []" by auto
    have b: "\<forall>v \<in> set ?vs. v \<le> 255" by (simp add: channel_values_def unat_u8_le)
    show ?thesis
      unfolding channel_values_levelled [OF that] chan_auto_levels_pixel [OF that] unat_stretch
        stretch_idem [OF ne b in_vs] ..
  qed
  obtain r g b where q: "auto_levels_pixel img p = (r, g, b)" by (cases "auto_levels_pixel img p")
  have "chan 0 (auto_levels_pixel img p) = r" "chan 1 (auto_levels_pixel img p) = g"
    "chan 2 (auto_levels_pixel img p) = b" by (simp_all add: q)
  with c [of 0] c [of 1] c [of 2] have
    "auto_levels_pixel ?out (auto_levels_pixel img p) = (r, g, b)"
    unfolding auto_levels_pixel_def [of ?out] by simp
  with q show ?thesis by simp
qed

text \<open>
  C3. Applying \<open>apply_auto_levels\<close> to its own result returns that result again;
  when the first application raises, so does the sequence of the two.
\<close>

theorem apply_auto_levels_idempotent:
  "and_then (apply_auto_levels convert img) (apply_auto_levels convert)
   = apply_auto_levels convert img"
proof (cases "concat (raster (ensure_rgb convert img)) = []")
  case True
  then show ?thesis by (simp add: apply_auto_levels_empty and_then_def)
next
  case False
  let ?img = "ensure_rgb convert img"
  let ?out = "\<lparr>mode = ''RGB'', raster = map (map (auto_levels_pixel ?img)) (raster ?img)\<rparr>"
  have first: "apply_auto_levels convert img = Inr ?out"
    using False by (rule apply_auto_levels_eq)
  have rgb: "ensure_rgb convert ?out = ?out" by (simp add: ensure_rgb_def)
  have ne: "concat (raster (ensure_rgb convert ?out)) \<noteq> []"
    unfolding rgb using False by (simp add: map_concat)
  have "apply_auto_levels convert ?out
        = Inr \<lparr>mode = ''RGB'', raster = map (map (auto_levels_pixel ?out)) (raster ?out)\<rparr>"
    using apply_auto_levels_eq [OF ne] unfolding rgb .
  also have "map (map (auto_levels_pixel ?out)) (raster ?out)
             = map (map (\<lambda>p. auto_levels_pixel ?out (auto_levels_pixel ?img p))) (raster ?img)"
    by (simp add: comp_def)
  also have "\<dots> = map (map (auto_levels_pixel ?img)) (raster ?img)"
    by (rule map_map_cong) (rule auto_levels_pixel_idem)
  finally have second: "apply_auto_levels convert ?out = Inr ?out" .
  show ?thesis unfolding first using second by (simp add: and_then_def)
qed

lemma plane_levelled:
  assumes "c \<le> 2"
  shows "plane c (map (map (auto_levels_pixel img)) R)
         = map (map (\<lambda>v. word_of_nat (stretch (Min (set (channel_values c img)))
                                           (Max (set (channel_values c img))) (unat v))))
             (plane c R)"
  by (simp add: plane_def comp_def chan_auto_levels_pixel [OF assms])

lemma stretch_uniform: "word_of_nat (stretch m m (unat (v :: u8))) = v"
  by (simp add: stretch_def)

text \<open>
  C4. On an image with at least one pixel, each channel of the result of
  \<open>apply_auto_levels\<close> is the channel of the input with every sample \<open>v\<close> remapped
  by \<open>stretch\<close>, from the minimum and the maximum of that channel alone: to
  \<open>(v - minC) \<cdot> 255 / (maxC - minC)\<close>, clipped to 0..255 and cut to an integer, when
  \<open>maxC > minC\<close>; a channel with \<open>maxC = minC\<close> is returned as it is.
\<close>

theorem apply_auto_levels_per_channel:
  assumes "concat (raster (ensure_rgb convert img)) \<noteq> []"
  shows "\<exists>out. apply_auto_levels convert img = Inr out \<and>
           (\<forall>c \<in> {0, 1, 2}.
              plane c (raster out)
              = map (map (\<lambda>v. word_of_nat
                     (stretch (Min (set (channel_values c (ensure_rgb convert img))))
                              (Max (set (channel_values c (ensure_rgb convert img))))
                              (unat v))))
                  (plane c (raster (ensure_rgb convert img)))) \<and>
           (\<forall>c \<in> {0, 1, 2}.
              Max (set (channel_values c (ensure_rgb convert img)))
              = Min (set (channel_values c (ensure_rgb convert img))) \<longrightarrow>
              plane c (raster out) = plane c (raster (ensure_rgb convert img)))"
proof -
  let ?img = "ensure_rgb convert img"
  let ?out = "\<lparr>mode = ''RGB'', raster = map (map (auto_levels_pixel ?img)) (raster ?img)\<rparr>"
  have eq: "apply_auto_levels convert img = Inr ?out"
    using assms by (rule apply_auto_levels_eq)
  have p: "plane c (raster ?out)
           = map (map (\<lambda>v. word_of_nat (stretch (Min (set (channel_values c ?img)))
                                             (Max (set (channel_values c ?img))) (unat v))))
               (plane c (raster ?img))" if "c \<in> {0, 1, 2}" for c :: nat
  proof -
    from that have "c \<le> 2" by auto
    then show ?thesis by (simp add: plane_levelled)
  qed
  have u: "plane c (raster ?out) = plane c (raster ?img)"
    if "c \<in> {0, 1, 2}"
      and "Max (set (channel_values c ?img)) = Min (set (channel_values c ?img))" for c :: nat
    unfolding p [OF that(1)] that(2) by (simp add: stretch_uniform)
  from eq p u show ?thesis by blast
qed

lemma white_patch_pixel:
  "map_rgb (\<lambda>x. word_of_int (drop_fraction x)) (map_rgb (\<lambda>x. min 255 (max 0 x))
     (set_chan 2 (fmul (chan 2 (set_chan 1 (fmul (chan 1 (set_chan 0 (fmul (chan 0 q) s0) q)) s1)
                                   (set_chan 0 (fmul (chan 0 q) s0) q))) s2)
        (set_chan 1 (fmul (chan 1 (set_chan 0 (fmul (chan 0 q) s0) q)) s1)
           (set_chan 0 (fmul (chan 0 q) s0) q))))
   = (word_of_int (drop_fraction (min 255 (max 0 (fmul (chan 0 q) s0)))),
      word_of_int (drop_fraction (min 255 (max 0 (fmul (chan 1 q) s1)))),
      word_of_int (drop_fraction (min 255 (max 0 (fmul (chan 2 q) s2)))))"
  by (cases q) simp

lemma apply_white_patch_eq:
  assumes "concat (raster (ensure_rgb convert img)) \<noteq> []"
  shows "apply_white_patch_white_balance convert img
         = Inr \<lparr>mode = ''RGB'', raster = map (map (\<lambda>p.
             (white_patch_sample (Max (set (channel_values 0 (ensure_rgb convert img)))) (chan 0 p),
              white_patch_sample (Max (set (channel_values 1 (ensure_rgb convert img)))) (chan 1 p),
              white_patch_sample (Max (set (channel_values 2 (ensure_rgb convert img)))) (chan 2 p))))
           (raster (ensure_rgb convert img))\<rparr>"
proof -
  let ?img = "ensure_rgb convert img"
  let ?R = "raster ?img"
  define s where "s c = (if rat_of_nat (Max (set (channel_values c ?img))) > 0
     then fdiv 255 (rat_of_nat (Max (set (channel_values c ?img)))) else 1)" for c
  define cvt :: "u8 rgb \<Rightarrow> rat rgb" where "cvt = map_rgb (\<lambda>v. rat_of_nat (unat v))"
  have a: "astype_float64 ?R = map (map cvt) ?R" by (simp add: astype_float64_def cvt_def)
  have m: "np_max (plane c (astype_float64 ?R)) = Inr (rat_of_nat (Max (set (channel_values c ?img))))"
    for c unfolding channel_values_def by (rule np_max_plane [OF assms])
  have "apply_white_patch_white_balance convert img
        = Inr (fromarray (np_uint8 (np_clip
            (imul_plane 2 (s 2) (imul_plane 1 (s 1) (imul_plane 0 (s 0) (map (map cvt) ?R)))) 0 255)))"
    unfolding apply_white_patch_white_balance_def Let_def np_array_def m s_def
    by (simp only: and_then_def sum.case a)
  also have "np_uint8 (np_clip
            (imul_plane 2 (s 2) (imul_plane 1 (s 1) (imul_plane 0 (s 0) (map (map cvt) ?R)))) 0 255)
      = map (map (\<lambda>p. (word_of_int (drop_fraction (min 255 (max 0 (fmul (chan 0 (cvt p)) (s 0))))),
                         word_of_int (drop_fraction (min 255 (max 0 (fmul (chan 1 (cvt p)) (s 1))))),
                         word_of_int (drop_fraction (min 255 (max 0 (fmul (chan 2 (cvt p)) (s 2)))))))) ?R"
    unfolding np_uint8_def np_clip_def imul_plane_def
    by (simp only: map_map comp_def white_patch_pixel)
  also have "\<dots> = map (map (\<lambda>p.
             (white_patch_sample (Max (set (channel_values 0 ?img))) (chan 0 p),
              white_patch_sample (Max (set (channel_values 1 ?img))) (chan 1 p),
              white_patch_sample (Max (set (channel_values 2 ?img))) (chan 2 p)))) ?R"
    unfolding white_patch_sample_def s_def cvt_def chan_map_rgb ..
  finally show ?thesis by (simp only: fromarray_def)
qed

text \<open>
  C10. On an image with at least one pixel whose conversion to \<open>RGB\<close> (if any) keeps
  its size, \<open>apply_white_patch_white_balance\<close> and \<open>apply_auto_levels\<close> both return an
  image of the width and height of the input.
\<close>

theorem corrections_preserve_size:
  assumes "concat (raster (ensure_rgb convert img)) \<noteq> []"
    and "im_size (ensure_rgb convert img) = im_size img"
  shows "(\<exists>out. apply_white_patch_white_balance convert img = Inr out \<and> im_size out = im_size img) \<and>
         (\<exists>out. apply_auto_levels convert img = Inr out \<and> im_size out = im_size img)"
proof -
  have "im_size \<lparr>mode = ''RGB'', raster = map (map f) (raster (ensure_rgb convert img))\<rparr>
           = im_size (ensure_rgb convert img)" for f :: "u8 rgb \<Rightarrow> u8 rgb"
    by (simp add: im_size_def hd_map)
  then have s: "im_size \<lparr>mode = ''RGB'', raster = map (map f) (raster (ensure_rgb convert img))\<rparr>
           = im_size img" for f :: "u8 rgb \<Rightarrow> u8 rgb"
    by (simp only: assms(2))
  show ?thesis
    unfolding apply_white_patch_eq [OF assms(1)] apply_auto_levels_eq [OF assms(1)]
    by (simp add: s)
qed

lemma wp_100: "white_patch_sample 100 100 = 254"
proof -
  have a1: "fdiv 255 100 = 2871044762448691 / 1125899906842624"
    by code_simp
  have a2: "fmul 100 (2871044762448691 / 1125899906842624) = 8972014882652159 / 35184372088832"
    by code_simp
  have a3: "drop_fraction (8972014882652159 / 35184372088832) = 254"
    by code_simp
  show ?thesis by (simp add: white_patch_sample_def a1 a2 a3)
qed

text \<open>
  C2. The code at an image whose three channels are uniformly 100: the gain is the
  double nearest to \<open>255/100\<close>, the product \<open>100 \<cdot> gain\<close> rounds to the double just
  below 255, and the cast to \<open>uint8\<close> makes it 254, not 255.
\<close>

theorem white_patch_uniform_100:
  "apply_white_patch_white_balance convert \<lparr>mode = ''RGB'', raster = [[(100, 100, 100)]]\<rparr>
   = Inr \<lparr>mode = ''RGB'', raster = [[(254, 254, 254)]]\<rparr>"
proof -
  let ?img = "\<lparr>mode = ''RGB'', raster = [[(100, 100, 100)]]\<rparr> :: image"
  have rgb: "ensure_rgb convert ?img = ?img" by (simp add: ensure_rgb_def)
  have ne: "concat (raster (ensure_rgb convert ?img)) \<noteq> []" by (simp add: rgb)
  have mx: "Max (set (channel_values c ?img)) = 100" for c
    by (simp add: channel_values_def)
  show ?thesis
    unfolding apply_white_patch_eq [OF ne] rgb mx by (simp add: wp_100)
qed

theorem apply_auto_levels_per_channel_witness:
  "concat (raster (ensure_rgb (\<lambda>i m. i)
       \<lparr>mode = ''RGB'', raster = [[(100, 0, 7), (150, 255, 7), (103, 3, 7)]]\<rparr>)) \<noteq> [] \<and>
   (\<exists>out. apply_auto_levels (\<lambda>i m. i)
             \<lparr>mode = ''RGB'', raster = [[(100, 0, 7), (150, 255, 7), (103, 3, 7)]]\<rparr> = Inr out \<and>
          plane 0 (raster out) = [[0, 255, 15]] \<and>
          plane 1 (raster out) = [[0, 255, 3]] \<and>
          plane 2 (raster out) = [[7, 7, 7]])"
proof -
  let ?img = "\<lparr>mode = ''RGB'', raster = [[(100, 0, 7), (150, 255, 7), (103, 3, 7)]]\<rparr> :: image"
  have rgb: "ensure_rgb (\<lambda>i m. i) ?img = ?img" by (simp add: ensure_rgb_def)
  have ne: "concat (raster (ensure_rgb (\<lambda>i m. i) ?img)) \<noteq> []" by (simp add: rgb)
  have v0: "channel_values 0 ?img = [100, 150, 103]"
    and v1: "channel_values 1 ?img = [0, 255, 3]"
    and v2: "channel_values 2 ?img = [7, 7, 7]"
    by (simp_all add: channel_values_def)
  have s: "stretch 100 150 100 = 0" "stretch 100 150 150 = 255" "stretch 100 150 103 = 15"
    "stretch 0 255 0 = 0" "stretch 0 255 255 = 255" "stretch 0 255 3 = 3" "stretch 7 7 7 = 7"
    by code_simp+
  from apply_auto_levels_per_channel [OF ne] obtain out
    where out: "apply_auto_levels (\<lambda>i m. i) ?img = Inr out"
      and p: "\<forall>c \<in> {0, 1, 2}. plane c (raster out)
              = map (map (\<lambda>v. word_of_nat
                     (stretch (Min (set (channel_values c (ensure_rgb (\<lambda>i m. i) ?img))))
                              (Max (set (channel_values c (ensure_rgb (\<lambda>i m. i) ?img))))
                              (unat v))))
                  (plane c (raster (ensure_rgb (\<lambda>i m. i) ?img)))"
    by blast
  have mm: "Min (set [100, 150, 103 :: nat]) = 100" "Max (set [100, 150, 103 :: nat]) = 150"
    "Min (set [0, 255, 3 :: nat]) = 0" "Max (set [0, 255, 3 :: nat]) = 255"
    "Min (set [7, 7, 7 :: nat]) = 7" "Max (set [7, 7, 7 :: nat]) = 7"
    by simp_all
  have pl: "plane 0 (raster ?img) = [[100, 150, 103]]" "plane 1 (raster ?img) = [[0, 255, 3]]"
    "plane 2 (raster ?img) = [[7, 7, 7]]"
    by (simp_all add: plane_def)
  have "plane 0 (raster out) = [[0, 255, 15]]"
    using p [THEN bspec, of 0] unfolding rgb v0 mm pl by (simp add: s)
  moreover have "plane 1 (raster out) = [[0, 255, 3]]"
    using p [THEN bspec, of 1] unfolding rgb v1 mm pl by (simp add: s)
  moreover have "plane 2 (raster out) = [[7, 7, 7]]"
    using p [THEN bspec, of 2] unfolding rgb v2 mm pl by (simp add: s)
  ultimately show ?thesis using ne out by blast
qed

theorem corrections_preserve_size_witness:
  "(\<exists>out. apply_white_patch_white_balance (\<lambda>i m. i)
      \<lparr>mode = ''RGB'', raster = [[(100, 0, 7), (150, 255, 7), (103, 3, 7)]]\<rparr> = Inr out \<and>
      im_size out = (3, 1)) \<and>
   (\<exists>out. apply_auto_levels (\<lambda>i m. i)
      \<lparr>mode = ''RGB'', raster = [[(100, 0, 7), (150, 255, 7), (103, 3, 7)]]\<rparr> = Inr out \<and>
      im_size out = (3, 1))"
proof -
  let ?img = "\<lparr>mode = ''RGB'', raster = [[(100, 0, 7), (150, 255, 7), (103, 3, 7)]]\<rparr> :: image"
  have rgb: "ensure_rgb (\<lambda>i m. i) ?img = ?img" by (simp add: ensure_rgb_def)
  have ne: "concat (raster (ensure_rgb (\<lambda>i m. i) ?img)) \<noteq> []" by (simp add: rgb)
  have sz: "im_size (ensure_rgb (\<lambda>i m. i) ?img) = im_size ?img" by (simp only: rgb)
  have "im_size ?img = (3, 1)" by (simp add: im_size_def)
  with corrections_preserve_size [OF ne sz] show ?thesis by simp
qed

theorem apply_auto_levels_idempotent_witness:
  "apply_auto_levels (\<lambda>i m. i)
     \<lparr>mode = ''RGB'', raster = [[(100, 0, 7), (150, 255, 7), (103, 3, 7)]]\<rparr>
   = Inr \<lparr>mode = ''RGB'', raster = [[(0, 0, 7), (255, 255, 7), (15, 3, 7)]]\<rparr> \<and>
   and_then (apply_auto_levels (\<lambda>i m. i)
       \<lparr>mode = ''RGB'', raster = [[(100, 0, 7), (150, 255, 7), (103, 3, 7)]]\<rparr>)
     (apply_auto_levels (\<lambda>i m. i))
   = Inr \<lparr>mode = ''RGB'', raster = [[(0, 0, 7), (255, 255, 7), (15, 3, 7)]]\<rparr>"
proof -
  let ?img = "\<lparr>mode = ''RGB'', raster = [[(100, 0, 7), (150, 255, 7), (103, 3, 7)]]\<rparr> :: image"
  have rgb: "ensure_rgb (\<lambda>i m. i) ?img = ?img" by (simp add: ensure_rgb_def)
  have ne: "concat (raster (ensure_rgb (\<lambda>i m. i) ?img)) \<noteq> []" by (simp add: rgb)
  have v: "channel_values 0 ?img = [100, 150, 103]" "channel_values 1 ?img = [0, 255, 3]"
    "channel_values 2 ?img = [7, 7, 7]"
    by (simp_all add: channel_values_def)
  have mm: "Min (set [100, 150, 103 :: nat]) = 100" "Max (set [100, 150, 103 :: nat]) = 150"
    "Min (set [0, 255, 3 :: nat]) = 0" "Max (set [0, 255, 3 :: nat]) = 255"
    "Min (set [7, 7, 7 :: nat]) = 7" "Max (set [7, 7, 7 :: nat]) = 7"
    by simp_all
  have s: "stretch 100 150 100 = 0" "stretch 100 150 150 = 255" "stretch 100 150 103 = 15"
    "stretch 0 255 0 = 0" "stretch 0 255 255 = 255" "stretch 0 255 3 = 3" "stretch 7 7 7 = 7"
    by code_simp+
  have first: "apply_auto_levels (\<lambda>i m. i) ?img
     = Inr \<lparr>mode = ''RGB'', raster = [[(0, 0, 7), (255, 255, 7), (15, 3, 7)]]\<rparr>"
    unfolding apply_auto_levels_eq [OF ne] rgb auto_levels_pixel_def v mm
    by (simp add: s)
  from apply_auto_levels_idempotent [of "\<lambda>i m. i" ?img] first show ?thesis by simp
qed


section \<open>The canonical canvas\<close>

text \<open>
  The loop over the listing counts the sizes of the reference images that decode, in the
  order of the listing.
\<close>

lemma scan_sizes_count:
  "scan_sizes d sizes names
   = count_sizes sizes (concat (map (\<lambda>filename.
        if (endswith filename ''.jpg'' \<or> endswith filename ''.jpeg'' \<or> endswith filename ''.png'')
           \<and> \<not> endswith filename ''_centered.jpg''
        then (case get_image_size (file_at d filename) of None \<Rightarrow> [] | Some s \<Rightarrow> [s])
        else []) names))"
proof (induction names arbitrary: sizes)
  case Nil
  then show ?case by simp
next
  case (Cons filename rest)
  show ?case
    by (cases "image_open (file_at d filename)")
       (simp_all add: Cons.IH get_image_size_def Let_def)
qed

lemma dict_get_map:
  "dict_get (map (\<lambda>k. (k, f k)) ks) x dflt = (if x \<in> set ks then f x else dflt)"
  by (induction ks) auto

lemma dict_set_map_present:
  "distinct ks \<Longrightarrow> x \<in> set ks \<Longrightarrow>
   dict_set (map (\<lambda>k. (k, f k)) ks) x v = map (\<lambda>k. (k, if k = x then v else f k)) ks"
  by (induction ks) auto

lemma dict_set_map_absent:
  "x \<notin> set ks \<Longrightarrow> dict_set (map (\<lambda>k. (k, f k)) ks) x v = map (\<lambda>k. (k, f k)) ks @ [(x, v)]"
  by (induction ks) auto

lemma firsts_snoc:
  "rev (remdups (rev (xs @ [x])))
   = (if x \<in> set xs then rev (remdups (rev xs)) else rev (remdups (rev xs)) @ [x])"
  by simp

lemma count_list_snoc: "count_list (xs @ [x]) k = count_list xs k + (if x = k then 1 else 0)"
  by (induction xs) auto

lemma count_step:
  "dict_set (map (\<lambda>k. (k, count_list seen k)) (rev (remdups (rev seen)))) x
     (dict_get (map (\<lambda>k. (k, count_list seen k)) (rev (remdups (rev seen)))) x 0 + 1)
   = map (\<lambda>k. (k, count_list (seen @ [x]) k)) (rev (remdups (rev (seen @ [x]))))"
proof (cases "x \<in> set seen")
  case True
  let ?ks = "rev (remdups (rev seen))"
  have x: "x \<in> set ?ks" and d: "distinct ?ks" using True by simp_all
  have f: "rev (remdups (rev (seen @ [x]))) = ?ks" using True by simp
  have g: "dict_get (map (\<lambda>k. (k, count_list seen k)) ?ks) x 0 = count_list seen x"
    using x by (simp only: dict_get_map if_True)
  have "dict_set (map (\<lambda>k. (k, count_list seen k)) ?ks) x (count_list seen x + 1)
        = map (\<lambda>k. (k, if k = x then count_list seen x + 1 else count_list seen k)) ?ks"
    using d x by (rule dict_set_map_present)
  also have "\<dots> = map (\<lambda>k. (k, count_list (seen @ [x]) k)) ?ks"
    by (intro map_cong) auto
  finally show ?thesis unfolding f g .
next
  case False
  let ?ks = "rev (remdups (rev seen))"
  have n: "x \<notin> set ?ks" using False by simp
  have f: "rev (remdups (rev (seen @ [x]))) = ?ks @ [x]" using False by simp
  have g: "dict_get (map (\<lambda>k. (k, count_list seen k)) ?ks) x 0 = 0"
    using n by (simp only: dict_get_map if_False)
  have s1: "dict_set (map (\<lambda>k. (k, count_list seen k)) ?ks) x (0 + 1)
        = map (\<lambda>k. (k, count_list seen k)) ?ks @ [(x, 0 + 1)]"
    using n by (rule dict_set_map_absent)
  have s2: "map (\<lambda>k. (k, count_list (seen @ [x]) k)) ?ks
            = map (\<lambda>k. (k, count_list seen k)) ?ks"
    using n by (intro map_cong) auto
  have s3: "count_list (seen @ [x]) x = 0 + 1"
    using False by (simp add: count_list_0_iff)
  show ?thesis unfolding f g s1 by (simp only: map_append list.map s2 s3)
qed

lemma count_sizes_from:
  "count_sizes (map (\<lambda>k. (k, count_list seen k)) (rev (remdups (rev seen)))) rest
   = map (\<lambda>k. (k, count_list (seen @ rest) k)) (rev (remdups (rev (seen @ rest))))"
proof (induction rest arbitrary: seen)
  case Nil
  then show ?case by simp
next
  case (Cons x rest)
  have "count_sizes (map (\<lambda>k. (k, count_list seen k)) (rev (remdups (rev seen)))) (x # rest)
        = count_sizes (map (\<lambda>k. (k, count_list (seen @ [x]) k))
            (rev (remdups (rev (seen @ [x]))))) rest"
    by (simp only: count_sizes.simps count_step)
  also have "\<dots> = map (\<lambda>k. (k, count_list ((seen @ [x]) @ rest) k))
                      (rev (remdups (rev ((seen @ [x]) @ rest))))"
    by (rule Cons.IH)
  finally show ?case by simp
qed

text \<open>
  The dictionary holds each size once, in the order of first occurrence, with its number
  of occurrences.
\<close>

lemma count_sizes_eq:
  "count_sizes [] ds = map (\<lambda>k. (k, count_list ds k)) (rev (remdups (rev ds)))"
  using count_sizes_from [of "[]" ds] by simp

text \<open>
  \<open>max\<close> returns the first item whose key is greatest: the items before it have
  strictly smaller keys.
\<close>

lemma py_max_key_split:
  "\<exists>A B. x # xs = A @ py_max_key key x xs # B \<and>
         (\<forall>t \<in> set A. key t < key (py_max_key key x xs)) \<and>
         (\<forall>t \<in> set B. key t \<le> key (py_max_key key x xs))"
proof (induction xs arbitrary: x)
  case Nil
  have "[x] = [] @ x # []" by simp
  then show ?case by force
next
  case (Cons y ys)
  show ?case
  proof (cases "key x < key y")
    case True
    let ?r = "py_max_key key y ys"
    from Cons.IH [of y] obtain A B where ab: "y # ys = A @ ?r # B"
      and a: "\<forall>t \<in> set A. key t < key ?r" and b: "\<forall>t \<in> set B. key t \<le> key ?r"
      by blast
    have "y \<in> set (A @ ?r # B)" using ab by (metis list.set_intros(1))
    then have "key y \<le> key ?r" using a b by (auto simp add: less_imp_le)
    with True have "key x < key ?r" by simp
    with a have a': "\<forall>t \<in> set (x # A). key t < key ?r" by simp
    have "x # y # ys = (x # A) @ ?r # B" using ab by simp
    moreover have "py_max_key key x (y # ys) = ?r" using True by simp
    ultimately show ?thesis using a' b by metis
  next
    case False
    let ?r = "py_max_key key x ys"
    have r: "py_max_key key x (y # ys) = ?r" using False by simp
    from Cons.IH [of x] obtain A B where ab: "x # ys = A @ ?r # B"
      and a: "\<forall>t \<in> set A. key t < key ?r" and b: "\<forall>t \<in> set B. key t \<le> key ?r"
      by blast
    show ?thesis
    proof (cases A)
      case Nil
      from ab have "x # ys = ?r # B" unfolding Nil by (simp only: append_Nil)
      then have x: "?r = x" and ys: "B = ys" by (metis list.inject)+
      have "key y \<le> key ?r" using False by (simp add: x)
      with b have b': "\<forall>t \<in> set (y # B). key t \<le> key ?r" by simp
      have "x # y # ys = [] @ ?r # (y # B)" by (simp add: x ys)
      then show ?thesis unfolding r using b' by (metis empty_iff empty_set)
    next
      case (Cons a A')
      from ab have "x # ys = a # (A' @ ?r # B)" unfolding Cons by (simp only: append_Cons)
      then have x: "a = x" and ys: "ys = A' @ ?r # B" by (metis list.inject)+
      have "key x < key ?r" using a Cons x by simp
      with False have "key y < key ?r" by simp
      with a Cons x have a': "\<forall>t \<in> set (x # y # A'). key t < key ?r" by simp
      have "x # y # ys = (x # y # A') @ ?r # B" using ys by simp
      then show ?thesis unfolding r using a' b by metis
    qed
  qed
qed

lemma prefix_unique:
  "x \<notin> set xs \<Longrightarrow> x \<notin> set xs' \<Longrightarrow> xs @ x # ys = xs' @ x # ys' \<Longrightarrow> xs = xs'"
proof (induction xs arbitrary: xs')
  case Nil
  then show ?case by (cases xs') auto
next
  case (Cons a xs)
  then show ?case by (cases xs') auto
qed

lemma remdups_append_filter:
  "remdups (xs @ ys) = remdups (filter (\<lambda>x. x \<notin> set ys) xs) @ remdups ys"
  by (induction xs) auto

lemma firsts_split:
  assumes "m \<notin> set pre"
  shows "\<exists>rest. rev (remdups (rev (pre @ m # post))) = rev (remdups (rev pre)) @ m # rest"
proof -
  have "remdups (rev (pre @ m # post))
        = remdups (filter (\<lambda>x. x \<notin> set (m # rev pre)) (rev post)) @ remdups (m # rev pre)"
    using remdups_append_filter [of "rev post" "m # rev pre"] by simp
  also have "remdups (m # rev pre) = m # remdups (rev pre)" using assms by simp
  finally show ?thesis by simp
qed

lemma first_mode_of_max:
  assumes ds: "ds \<noteq> []"
    and T: "map (\<lambda>k. (k, count_list ds k)) (rev (remdups (rev ds))) = item # items"
  shows "first_mode ds (fst (py_max_key snd item items))"
proof -
  let ?ks = "rev (remdups (rev ds))"
  let ?b = "py_max_key snd item items"
  let ?m = "fst ?b"
  from py_max_key_split [of item items snd] obtain A B
    where ab: "item # items = A @ ?b # B"
      and a: "\<forall>t \<in> set A. snd t < snd ?b" and b: "\<forall>t \<in> set B. snd t \<le> snd ?b"
    by blast
  have form: "t \<in> set (item # items) \<Longrightarrow> snd t = count_list ds (fst t) \<and> fst t \<in> set ds" for t
    unfolding T [symmetric] by auto
  have b_in: "?b \<in> set (item # items)" unfolding ab by simp
  have m_in: "?m \<in> set ds" and cm: "snd ?b = count_list ds ?m"
    using form [OF b_in] by simp_all
  have keys: "?ks = map fst A @ ?m # map fst B"
  proof -
    have "map fst (item # items) = ?ks" unfolding T [symmetric] by (simp add: comp_def)
    then show ?thesis unfolding ab by simp
  qed
  have mx: "count_list ds x \<le> count_list ds ?m" if "x \<in> set ds" for x
  proof -
    from that have "x \<in> set ?ks" by simp
    then have "(x, count_list ds x) \<in> set (item # items)" unfolding T [symmetric] by simp
    then have "(x, count_list ds x) \<in> set A \<or> (x, count_list ds x) = ?b
               \<or> (x, count_list ds x) \<in> set B"
      unfolding ab by auto
    then show ?thesis
    proof (elim disjE)
      assume "(x, count_list ds x) \<in> set A"
      with a have "snd (x, count_list ds x) < snd ?b" by blast
      then show ?thesis by (simp add: cm)
    next
      assume "(x, count_list ds x) = ?b"
      then have "fst ?b = x" by (metis fst_conv)
      then show ?thesis by simp
    next
      assume "(x, count_list ds x) \<in> set B"
      with b have "snd (x, count_list ds x) \<le> snd ?b" by blast
      then show ?thesis by (simp add: cm)
    qed
  qed
  have fst_mode: "count_list ds x < count_list ds ?m"
    if "x \<in> set (takeWhile (\<lambda>x. x \<noteq> ?m) ds)" for x
  proof -
    let ?pre = "takeWhile (\<lambda>x. x \<noteq> ?m) ds"
    have "dropWhile (\<lambda>x. x \<noteq> ?m) ds \<noteq> []" using m_in by (simp add: dropWhile_eq_Nil_conv)
    then obtain post where post: "dropWhile (\<lambda>x. x \<noteq> ?m) ds = ?m # post"
      by (metis (mono_tags, lifting) hd_dropWhile list.exhaust_sel)
    have split: "ds = ?pre @ ?m # post" using post by (metis takeWhile_dropWhile_id)
    have npre: "?m \<notin> set ?pre" by (auto dest: set_takeWhileD)
    from firsts_split [OF npre, of post] obtain rest
      where "?ks = rev (remdups (rev ?pre)) @ ?m # rest" using split by auto
    with keys have eq: "map fst A @ ?m # map fst B = rev (remdups (rev ?pre)) @ ?m # rest" by simp
    have dk: "distinct ?ks" by simp
    then have n1: "?m \<notin> set (map fst A)" unfolding keys by auto
    have n2: "?m \<notin> set (rev (remdups (rev ?pre)))" using npre by simp
    have "map fst A = rev (remdups (rev ?pre))"
      using n1 n2 eq by (rule prefix_unique)
    then have "set (map fst A) = set ?pre" by simp
    with that have "x \<in> fst ` set A" by (simp only: set_map)
    then obtain t where t: "t \<in> set A" and xt: "fst t = x" by blast
    have "t \<in> set (item # items)" unfolding ab using t by simp
    from form [OF this] have "snd t = count_list ds x" using xt by simp
    with a t cm show ?thesis by auto
  qed
  show ?thesis unfolding first_mode_def using m_in mx fst_mode by blast
qed

lemma get_portrait_canvas_size_eq:
  "get_portrait_canvas_size d
   = (case map (\<lambda>k. (k, count_list (reference_sizes d) k))
             (rev (remdups (rev (reference_sizes d)))) of
        [] \<Rightarrow> None
      | item # items \<Rightarrow> Some (portrait (fst (py_max_key snd item items))))"
proof -
  have "scan_sizes d [] (listdir d)
        = map (\<lambda>k. (k, count_list (reference_sizes d) k)) (rev (remdups (rev (reference_sizes d))))"
    unfolding scan_sizes_count reference_sizes_def count_sizes_eq ..
  then show ?thesis
    by (simp add: get_portrait_canvas_size_def Let_def portrait_def split: list.split prod.split)
qed

lemma portrait_le: "fst (portrait dm) \<le> snd (portrait dm)"
  by (cases dm) (simp add: portrait_def)

lemma reference_sizes_example:
  "reference_sizes reference_photos = [(800, 600), (800, 600), (600, 800)]"
  by (simp add: reference_sizes_def reference_photos_def endswith_def get_image_size_def
      image_open_def blank_size)

lemma reference_sizes_unusable: "reference_sizes unusable_photos = []"
  by (simp add: reference_sizes_def unusable_photos_def endswith_def get_image_size_def
      image_open_def)

lemma concat_map_Nil: "concat (map f xs) = [] \<longleftrightarrow> (\<forall>x \<in> set xs. f x = [])"
  by (induction xs) auto

text \<open>
  C1. When at least one reference image decodes, \<open>get_portrait_canvas_size\<close> returns
  the size with the highest number of occurrences, the first met among equals, with its
  axes swapped when it is wider than high, so that the height is at least the width; for
  the sizes (800, 600), (800, 600), (600, 800) it returns (600, 800).
\<close>

theorem canonical_canvas_is_first_mode:
  assumes "reference_sizes d \<noteq> []"
  shows "(\<exists>m. first_mode (reference_sizes d) m \<and>
              get_portrait_canvas_size d = Some (portrait m) \<and>
              fst (portrait m) \<le> snd (portrait m)) \<and>
         (reference_sizes d = [(800, 600), (800, 600), (600, 800)] \<longrightarrow>
            get_portrait_canvas_size d = Some (600, 800))"
proof -
  let ?ds = "reference_sizes d"
  let ?T = "map (\<lambda>k. (k, count_list ?ds k)) (rev (remdups (rev ?ds)))"
  have "rev (remdups (rev ?ds)) \<noteq> []" using assms by simp
  then have "?T \<noteq> []" by simp
  then obtain item items where T: "?T = item # items" by (cases ?T) auto
  let ?m = "fst (py_max_key snd item items)"
  have fm: "first_mode ?ds ?m" using assms T by (rule first_mode_of_max)
  have res: "get_portrait_canvas_size d = Some (portrait ?m)"
    unfolding get_portrait_canvas_size_eq T by simp
  have ex: "get_portrait_canvas_size d = Some (600, 800)"
    if e: "?ds = [(800, 600), (800, 600), (600, 800)]"
  proof -
    from fm have "?m \<in> set ?ds" and "\<forall>x \<in> set ?ds. count_list ?ds x \<le> count_list ?ds ?m"
      by (simp_all add: first_mode_def)
    then have "?m = (800, 600)" unfolding e by (auto split: if_splits)
    then show ?thesis unfolding res by (simp add: portrait_def)
  qed
  from fm res portrait_le [of ?m] ex show ?thesis by blast
qed

theorem canonical_canvas_is_first_mode_witness:
  "reference_sizes reference_photos = [(800, 600), (800, 600), (600, 800)] \<and>
   get_portrait_canvas_size reference_photos = Some (600, 800)"
  using canonical_canvas_is_first_mode [of reference_photos]
  by (simp add: reference_sizes_example)

text \<open>
  C9. \<open>get_portrait_canvas_size\<close> returns \<open>None\<close> exactly when the sequence of decoded
  reference sizes is empty, that is when every listed file with a reference name fails
  to decode (or there is none); \<open>main\<close> then exits with status 1 whatever its
  arguments, without centering anything.
\<close>

theorem no_reference_images:
  "(get_portrait_canvas_size d = None \<longleftrightarrow> reference_sizes d = []) \<and>
   (reference_sizes d = [] \<longleftrightarrow>
      (\<forall>filename \<in> set (listdir d).
         (endswith filename ''.jpg'' \<or> endswith filename ''.jpeg'' \<or> endswith filename ''.png'')
         \<and> \<not> endswith filename ''_centered.jpg''
         \<longrightarrow> get_image_size (file_at d filename) = None)) \<and>
   (reference_sizes d = [] \<longrightarrow> main convert argv d = SysExit 1)"
proof -
  have a: "get_portrait_canvas_size d = None \<longleftrightarrow> reference_sizes d = []"
  proof (cases "reference_sizes d = []")
    case True
    then show ?thesis unfolding get_portrait_canvas_size_eq by simp
  next
    case False
    let ?T = "map (\<lambda>k. (k, count_list (reference_sizes d) k))
                (rev (remdups (rev (reference_sizes d))))"
    have "?T \<noteq> []" using False by simp
    then obtain item items where "?T = item # items" by (cases ?T) auto
    then have "get_portrait_canvas_size d \<noteq> None"
      unfolding get_portrait_canvas_size_eq by simp
    with False show ?thesis by simp
  qed
  have b: "reference_sizes d = [] \<longleftrightarrow>
      (\<forall>filename \<in> set (listdir d).
         (endswith filename ''.jpg'' \<or> endswith filename ''.jpeg'' \<or> endswith filename ''.png'')
         \<and> \<not> endswith filename ''_centered.jpg''
         \<longrightarrow> get_image_size (file_at d filename) = None)"
    unfolding reference_sizes_def concat_map_Nil
    by (rule ball_cong [OF refl]) (simp split: option.split)
  have c: "main convert argv d = SysExit 1" if "reference_sizes d = []"
  proof -
    from that a have "get_portrait_canvas_size d = None" by simp
    then show ?thesis by (simp add: main_def Let_def)
  qed
  from a b c show ?thesis by blast
qed

theorem no_reference_images_witness:
  "reference_sizes unusable_photos = [] \<and>
   get_portrait_canvas_size unusable_photos = None \<and>
   main (\<lambda>i m. i) [''center_image_batch.py'', ''e.jpg''] unusable_photos = SysExit 1 \<and>
   get_portrait_canvas_size reference_photos \<noteq> None"
  using no_reference_images [of unusable_photos "\<lambda>i m. i" "[''center_image_batch.py'', ''e.jpg'']"]
    no_reference_images [of reference_photos "\<lambda>i m. i" "[''center_image_batch.py'', ''e.jpg'']"]
  by (simp add: reference_sizes_unusable reference_sizes_example)


section \<open>Centering on the canvas\<close>

lemma paste_on_blank:
  assumes "y < ch" and "x < cw"
  shows "length (raster (paste convert (image_new m (cw, ch) c) im (left, upper))) = ch"
    and "length (raster (paste convert (image_new m (cw, ch) c) im (left, upper)) ! y) = cw"
    and "raster (paste convert (image_new m (cw, ch) c) im (left, upper)) ! y ! x
         = (let src = (if mode im \<noteq> m then convert im m else im);
                sx = int x - left; sy = int y - upper
            in if 0 \<le> sy \<and> nat sy < length (raster src) \<and>
                  0 \<le> sx \<and> nat sx < length (raster src ! nat sy)
               then raster src ! nat sy ! nat sx else c)"
  using assms
  by (auto simp add: paste_def image_new_def Let_def nth_enumerate_eq)

lemma sdiv_nonneg: "0 \<le> k \<Longrightarrow> k div 2 = k sdiv (2::int)"
  by (cases "k = 0") (simp_all add: signed_divide_int_def)

text \<open>
  C6, as stated, fails: the offsets are computed with \<open>//\<close>, which rounds towards
  minus infinity. For a source of width 801 on a canvas of width 800 the code pastes at
  \<open>x = -1\<close>; truncating division gives 0.
\<close>

theorem center_offset_counterexample:
  "center_offset (800, 1000) (801, 700) = (- 1, 150) \<and>
   ((int 800 - int 801) sdiv 2, (int 1000 - int 700) sdiv 2) = (0, 150)"
  by (simp add: center_offset_def signed_divide_int_def)

text \<open>
  C6, amended. For a target that exists and decodes, \<open>center_image_on_canvas\<close> builds
  a canvas of the canvas size filled with (255, 255, 255) and pastes the source at
  \<open>(\<lfloor>(canvasW - srcW) / 2\<rfloor>, \<lfloor>(canvasH - srcH) / 2\<rfloor>)\<close>, whatever the two sizes: a
  pixel of the result is the pixel of the source that falls there, and white elsewhere.
  On an axis where the source fits, the offset is also the truncated quotient; a 500 by
  700 source on an 800 by 1000 canvas is placed at (150, 150).
\<close>

theorem center_image_on_canvas_floor:
  assumes "file_at d target_filename = Picture target_img"
    and "im_size target_img = (tw, th)"
  shows "\<exists>canvas.
           center_image_on_canvas convert d target_filename (cw, ch) = Inr (Some canvas) \<and>
           canvas = paste convert (image_new ''RGB'' (cw, ch) (255, 255, 255)) target_img
                      ((int cw - int tw) div 2, (int ch - int th) div 2) \<and>
           mode canvas = ''RGB'' \<and> length (raster canvas) = ch \<and>
           (\<forall>y < ch. length (raster canvas ! y) = cw \<and>
              (\<forall>x < cw. raster canvas ! y ! x
                 = (let src = (if mode target_img \<noteq> ''RGB'' then convert target_img ''RGB''
                               else target_img);
                        sx = int x - (int cw - int tw) div 2;
                        sy = int y - (int ch - int th) div 2
                    in if 0 \<le> sy \<and> nat sy < length (raster src) \<and>
                          0 \<le> sx \<and> nat sx < length (raster src ! nat sy)
                       then raster src ! nat sy ! nat sx else (255, 255, 255)))) \<and>
           (tw \<le> cw \<longrightarrow> (int cw - int tw) div 2 = (int cw - int tw) sdiv 2) \<and>
           (th \<le> ch \<longrightarrow> (int ch - int th) div 2 = (int ch - int th) sdiv 2) \<and>
           ((cw, ch) = (800, 1000) \<and> (tw, th) = (500, 700) \<longrightarrow>
              center_offset (cw, ch) (im_size target_img) = (150, 150))"
proof -
  let ?off = "((int cw - int tw) div 2, (int ch - int th) div 2)"
  let ?canvas = "paste convert (image_new ''RGB'' (cw, ch) (255, 255, 255)) target_img ?off"
  have r: "center_image_on_canvas convert d target_filename (cw, ch) = Inr (Some ?canvas)"
    using assms
    by (simp add: center_image_on_canvas_def image_open_def and_then_def center_offset_def Let_def)
  have m: "mode ?canvas = ''RGB''" by (simp add: paste_def image_new_def Let_def)
  have len: "length (raster ?canvas) = ch"
    by (simp add: paste_def image_new_def Let_def)
  have px: "length (raster ?canvas ! y) = cw \<and>
      (\<forall>x < cw. raster ?canvas ! y ! x
         = (let src = (if mode target_img \<noteq> ''RGB'' then convert target_img ''RGB''
                       else target_img);
                sx = int x - (int cw - int tw) div 2;
                sy = int y - (int ch - int th) div 2
            in if 0 \<le> sy \<and> nat sy < length (raster src) \<and>
                  0 \<le> sx \<and> nat sx < length (raster src ! nat sy)
               then raster src ! nat sy ! nat sx else (255, 255, 255)))" if "y < ch" for y
  proof (cases "0 < cw")
    case True
    show ?thesis using paste_on_blank(2) [OF that True] paste_on_blank(3) [OF that] by blast
  next
    case False
    then show ?thesis using that by (simp add: paste_def image_new_def Let_def nth_enumerate_eq)
  qed
  have t1: "tw \<le> cw \<longrightarrow> (int cw - int tw) div 2 = (int cw - int tw) sdiv 2"
    by (simp add: sdiv_nonneg)
  have t2: "th \<le> ch \<longrightarrow> (int ch - int th) div 2 = (int ch - int th) sdiv 2"
    by (simp add: sdiv_nonneg)
  have ex: "(cw, ch) = (800, 1000) \<and> (tw, th) = (500, 700) \<longrightarrow>
              center_offset (cw, ch) (im_size target_img) = (150, 150)"
    using assms(2) by (simp add: center_offset_def)
  from r m len px t1 t2 ex show ?thesis by blast
qed

theorem center_image_on_canvas_floor_witness:
  "file_at reference_photos ''d_centered.jpg'' = Picture (image_new ''RGB'' (500, 700) (0, 0, 0)) \<and>
   center_image_on_canvas (\<lambda>i m. i) reference_photos ''d_centered.jpg'' (800, 1000)
   = Inr (Some (paste (\<lambda>i m. i) (image_new ''RGB'' (800, 1000) (255, 255, 255))
                  (image_new ''RGB'' (500, 700) (0, 0, 0)) (150, 150))) \<and>
   center_offset (800, 1000) (im_size (image_new ''RGB'' (500, 700) (0, 0, 0))) = (150, 150)"
proof -
  have f: "file_at reference_photos ''d_centered.jpg'' = Picture (image_new ''RGB'' (500, 700) (0, 0, 0))"
    by (simp add: reference_photos_def)
  have s: "im_size (image_new ''RGB'' (500, 700) (0, 0, 0)) = (500, 700)"
    by (simp add: blank_size)
  from center_image_on_canvas_floor [OF f s, of "\<lambda>i m. i" 800 1000]
  show ?thesis using f by auto
qed

end
